theory Spec2Isabelle
  imports Main "HOL-Library.Multiset"
begin

section \<open>SimpleLogger: the data model of Logger.cpp\<close>

subsection \<open>LogLevel\<close>

text \<open>
  \<^verbatim>\<open>enum class LogLevel { DEBUG, INFO, WARNING, ERROR, CRITICAL };\<close>
  A scoped enumeration without initialisers: the enumerators have the values 0 to 4
  of the underlying type \<open>int\<close>, and the built-in \<open><\<close> on two \<open>LogLevel\<close> values
  compares these underlying values. The datatype below is the five declared
  enumerators, and \<open>rank\<close> their underlying values. A C++ object of type
  \<open>LogLevel\<close> can hold any value of the underlying type
  (\<open>static_cast<LogLevel>(5)\<close>); the functions \<open>levelToString_switch\<close> and
  \<open>log_value\<close> below take the level as its underlying value and so cover these too.
\<close>

datatype LogLevel = DEBUG | INFO | WARNING | ERROR | CRITICAL

fun rank :: "LogLevel \<Rightarrow> int" where
  "rank DEBUG = 0"
| "rank INFO = 1"
| "rank WARNING = 2"
| "rank ERROR = 3"
| "rank CRITICAL = 4"

definition level_less :: "LogLevel \<Rightarrow> LogLevel \<Rightarrow> bool" where
  "level_less a b = (rank a < rank b)"

subsection \<open>Broken-down time and its rendering\<close>

text \<open>
  The fields of \<open>struct tm\<close> that \<open>std::put_time\<close> reads for the format
  \<open>"%Y-%m-%d %X"\<close>. They are C \<open>int\<close>s: \<open>tm_year\<close> counts from 1900 and
  \<open>tm_mon\<close> from 0.
\<close>

record tm =
  tm_sec :: int
  tm_min :: int
  tm_hour :: int
  tm_mday :: int
  tm_mon :: int
  tm_year :: int

definition digit :: "nat \<Rightarrow> char" where
  "digit n = ''0123456789'' ! (n mod 10)"

text \<open>A decimal number without padding, as \<open>%Y\<close> prints the year.\<close>

fun dec :: "nat \<Rightarrow> string" where
  "dec n = (if n < 10 then [digit n] else dec (n div 10) @ [digit (n mod 10)])"

declare dec.simps [simp del]

definition show_int :: "int \<Rightarrow> string" where
  "show_int i = (if i < 0 then CHR ''-'' # dec (nat (- i)) else dec (nat i))"

text \<open>Two digits, zero-padded, as \<open>%m\<close>, \<open>%d\<close>, \<open>%H\<close>, \<open>%M\<close> and \<open>%S\<close> print.\<close>

definition pad2 :: "int \<Rightarrow> string" where
  "pad2 i = [digit (nat i div 10), digit (nat i)]"

text \<open>
  \<open>std::put_time(t, "%Y-%m-%d %X")\<close> on a stream with the classic "C" locale
  (the program never installs another one), where \<open>%X\<close> is \<open>%H:%M:%S\<close>.
\<close>

definition put_time :: "tm \<Rightarrow> string" where
  "put_time t =
     show_int (tm_year t + 1900) @ ''-'' @ pad2 (tm_mon t + 1) @ ''-'' @ pad2 (tm_mday t)
     @ '' '' @ pad2 (tm_hour t) @ '':'' @ pad2 (tm_min t) @ '':'' @ pad2 (tm_sec t)"

subsection \<open>The world outside the logger\<close>

text \<open>
  The two standard streams the program writes, the file system (a path names the
  bytes of a file), which paths \<open>ofstream::open\<close> can open for appending, the
  system clock (\<open>system_clock w k\<close> is the \<open>time_t\<close> that
  \<open>to_time_t(system_clock::now())\<close> yields at the \<open>k\<close>-th reading, and
  \<open>clock_reads\<close> counts the readings made so far), the C library's
  \<open>localtime\<close> as a function of the value of the environment variable \<open>TZ\<close>
  and of the \<open>time_t\<close>, and the environment variables of the process.
\<close>

record world =
  cout :: string
  cerr :: string
  files :: "string \<Rightarrow> string option"
  openable :: "string \<Rightarrow> bool"
  system_clock :: "nat \<Rightarrow> int"
  localtime :: "string option \<Rightarrow> int \<Rightarrow> tm"
  clock_reads :: nat
  environ :: "string \<Rightarrow> string option"

text \<open>
  The local time at the \<open>k\<close>-th reading of the clock: \<open>localtime\<close> looks up
  \<open>TZ\<close> in the environment.
\<close>

definition clock :: "world \<Rightarrow> nat \<Rightarrow> tm" where
  "clock w = (\<lambda>k. localtime w (environ w ''TZ'') (system_clock w k))"

text \<open>
  The data members of \<open>class Logger\<close>. \<open>logfile\<close> is the \<open>std::ofstream\<close>:
  \<open>Some p\<close> when it is open on path \<open>p\<close>, \<open>None\<close> when \<open>is_open()\<close> is false.
  \<open>logMutex\<close> is true while the mutex is locked.
\<close>

record Logger =
  logfile :: "string option"
  minimumLevel :: LogLevel
  logMutex :: bool

type_synonym state = "Logger \<times> world"

section \<open>The operations\<close>

subsection \<open>Stream primitives\<close>

text \<open>\<open>std::cout << s\<close>, \<open>std::cout << std::endl\<close>, and the same on \<open>std::cerr\<close>.\<close>

definition cout_put :: "string \<Rightarrow> world \<Rightarrow> world" where
  "cout_put s w = w\<lparr>cout := cout w @ s\<rparr>"

definition cout_endl :: "world \<Rightarrow> world" where
  "cout_endl w = w\<lparr>cout := cout w @ [CHR 0x0A]\<rparr>"

definition cerr_put :: "string \<Rightarrow> world \<Rightarrow> world" where
  "cerr_put s w = w\<lparr>cerr := cerr w @ s\<rparr>"

definition cerr_endl :: "world \<Rightarrow> world" where
  "cerr_endl w = w\<lparr>cerr := cerr w @ [CHR 0x0A]\<rparr>"

text \<open>
  The bytes at a path; a path with no file has none.
  \<open>logfile.open(filename, std::ios::out | std::ios::app)\<close>: when the path can be
  opened, a missing file is created empty and an existing one keeps its bytes.
\<close>

definition file_bytes :: "world \<Rightarrow> string \<Rightarrow> string" where
  "file_bytes w p = (case files w p of None \<Rightarrow> [] | Some old \<Rightarrow> old)"

definition file_open_app :: "string \<Rightarrow> world \<Rightarrow> string option \<times> world" where
  "file_open_app p w =
     (if openable w p
      then (Some p, w\<lparr>files := (files w)(p \<mapsto> file_bytes w p)\<rparr>)
      else (None, w))"

text \<open>
  \<open>logfile << s\<close> and \<open>logfile << std::endl\<close> on a stream opened with \<open>ios::app\<close>:
  every byte goes to the end of the file.
\<close>

definition file_put :: "string \<Rightarrow> string \<Rightarrow> world \<Rightarrow> world" where
  "file_put p s w = w\<lparr>files := (files w)(p \<mapsto> file_bytes w p @ s)\<rparr>"

definition file_endl :: "string \<Rightarrow> world \<Rightarrow> world" where
  "file_endl p w = file_put p [CHR 0x0A] w"

subsection \<open>The private helpers of Logger\<close>

text \<open>
  \<open>getCurrentTime\<close>: one reading of the system clock, converted by
  \<open>std::localtime\<close> (which reads \<open>TZ\<close>) and rendered.
\<close>

definition getCurrentTime :: "world \<Rightarrow> string \<times> world" where
  "getCurrentTime w =
     (let in_time_t = system_clock w (clock_reads w)
      in (put_time (localtime w (environ w ''TZ'') in_time_t),
          w\<lparr>clock_reads := Suc (clock_reads w)\<rparr>))"

text \<open>
  \<open>levelToString\<close>: the \<open>switch\<close> is over the underlying value, and has a
  \<open>default\<close> branch for every value that is not one of the five enumerators.
\<close>

definition levelToString_switch :: "int \<Rightarrow> string" where
  "levelToString_switch v =
     (if v = 0 then ''DEBUG''
      else if v = 1 then ''INFO''
      else if v = 2 then ''WARNING''
      else if v = 3 then ''ERROR''
      else if v = 4 then ''CRITICAL''
      else ''UNKNOWN'')"

definition levelToString :: "LogLevel \<Rightarrow> string" where
  "levelToString level = levelToString_switch (rank level)"

subsection \<open>Constructor and destructor\<close>

text \<open>
  \<open>Logger(filename, minLevel)\<close>: the member initialiser sets \<open>minimumLevel\<close>, the body
  opens the file for appending and, when \<open>is_open()\<close> is false, prints one line on
  \<open>std::cerr\<close>. The mutex starts unlocked.
\<close>

definition Logger_ctor :: "string \<Rightarrow> LogLevel \<Rightarrow> world \<Rightarrow> state" where
  "Logger_ctor filename minLevel w =
     (let (h, w1) = file_open_app filename w;
          lg = \<lparr>logfile = h, minimumLevel = minLevel, logMutex = False\<rparr>
      in if h = None
         then (lg, cerr_endl (cerr_put filename (cerr_put ''Failed to open the log file : '' w1)))
         else (lg, w1))"

text \<open>The defaults of the constructor's parameters.\<close>

definition Logger_default :: "world \<Rightarrow> state" where
  "Logger_default w = Logger_ctor ''app.log'' INFO w"

text \<open>\<open>~Logger()\<close>: closes the file when it is open (every byte is already in it).\<close>

definition Logger_dtor :: "state \<Rightarrow> state" where
  "Logger_dtor s = (case s of (lg, w) \<Rightarrow>
     (if logfile lg \<noteq> None then (lg\<lparr>logfile := None\<rparr>, w) else (lg, w)))"

subsection \<open>log and its wrappers\<close>

text \<open>The line that \<open>log\<close> builds: \<open>"[" + time + "]" + "[" + level + "]" + message\<close>.\<close>

definition logEntry :: "string \<Rightarrow> LogLevel \<Rightarrow> string \<Rightarrow> string" where
  "logEntry time level message = ''['' @ time @ '']'' @ ''['' @ levelToString level @ '']'' @ message"

text \<open>
  \<open>log(level, message)\<close>. A call below the threshold returns at once. Otherwise the
  \<open>lock_guard\<close> takes \<open>logMutex\<close>; a caller that finds the mutex locked waits, and in a
  run with no other thread to release it the call never returns, which is the result
  \<open>None\<close>. Under the lock: the timestamp, the line, the line and \<open>endl\<close> on
  \<open>std::cout\<close>, the same on the file when it is open; the end of the scope unlocks.
\<close>

definition log_body :: "LogLevel \<Rightarrow> string \<Rightarrow> Logger \<Rightarrow> world \<Rightarrow> world" where
  "log_body level message lg w =
     (let (time, w1) = getCurrentTime w;
          entry = logEntry time level message;
          w2 = cout_endl (cout_put entry w1)
      in case logfile lg of
           Some p \<Rightarrow> file_endl p (file_put p entry w2)
         | None \<Rightarrow> w2)"

definition log :: "LogLevel \<Rightarrow> string \<Rightarrow> state \<Rightarrow> state option" where
  "log level message s = (case s of (lg, w) \<Rightarrow>
     (if level_less level (minimumLevel lg) then Some (lg, w)
      else if logMutex lg then None
      else let held = lg\<lparr>logMutex := True\<rparr>;
               w' = log_body level message held w
           in Some (held\<lparr>logMutex := False\<rparr>, w')))"

definition debug :: "string \<Rightarrow> state \<Rightarrow> state option" where
  "debug message s = log DEBUG message s"

definition info :: "string \<Rightarrow> state \<Rightarrow> state option" where
  "info message s = log INFO message s"

definition warning :: "string \<Rightarrow> state \<Rightarrow> state option" where
  "warning message s = log WARNING message s"

definition error :: "string \<Rightarrow> state \<Rightarrow> state option" where
  "error message s = log ERROR message s"

definition critical :: "string \<Rightarrow> state \<Rightarrow> state option" where
  "critical message s = log CRITICAL message s"

subsection \<open>log on any value of the enumeration type\<close>




section \<open>Sequences of calls\<close>

type_synonym call = "LogLevel \<times> string"

text \<open>One thread issuing \<open>log\<close> calls one after the other.\<close>

fun log_all :: "call list \<Rightarrow> state \<Rightarrow> state option" where
  "log_all [] s = Some s"
| "log_all (c # cs) s =
     (case log (fst c) (snd c) s of None \<Rightarrow> None | Some s' \<Rightarrow> log_all cs s')"


section \<open>Threads sharing one logger\<close>

text \<open>
  A thread inside \<open>log\<close> is at one of its statements. Each constructor is the next
  statement the thread will execute, with the locals it needs:
  \<^item> \<open>Idle\<close>: not inside the locked scope; the next call starts with the test of line 70;
  \<^item> \<open>Acquire\<close>: the \<open>lock_guard\<close> constructor of line 73;
  \<^item> \<open>Build\<close>: line 75, the timestamp and the line;
  \<^item> \<open>ConsolePut\<close>, \<open>ConsoleEndl\<close>: the two insertions of line 78;
  \<^item> \<open>TestOpen\<close>: the test of line 81;
  \<^item> \<open>FilePut\<close>, \<open>FileEndl\<close>: the two insertions of line 82;
  \<^item> \<open>Release\<close>: the end of the scope, line 84, where the \<open>lock_guard\<close> unlocks.
\<close>

datatype pc =
    Idle
  | Acquire LogLevel string
  | Build LogLevel string
  | ConsolePut string
  | ConsoleEndl string
  | TestOpen string
  | FilePut string
  | FileEndl string
  | Release

text \<open>A thread: where it is, and the calls it has still to make.\<close>

type_synonym thread = "pc \<times> call list"

text \<open>
  One statement of one thread. \<open>None\<close>: the thread cannot move, because it has
  returned from its last call or because it waits for the mutex.
\<close>

fun thread_step :: "thread \<Rightarrow> state \<Rightarrow> (thread \<times> state) option" where
  "thread_step (Idle, []) s = None"
| "thread_step (Idle, c # cs) (lg, w) =
     (if level_less (fst c) (minimumLevel lg) then Some ((Idle, cs), lg, w)
      else Some ((Acquire (fst c) (snd c), cs), lg, w))"
| "thread_step (Acquire l m, cs) (lg, w) =
     (if logMutex lg then None else Some ((Build l m, cs), lg\<lparr>logMutex := True\<rparr>, w))"
| "thread_step (Build l m, cs) (lg, w) =
     (let (time, w1) = getCurrentTime w in Some ((ConsolePut (logEntry time l m), cs), lg, w1))"
| "thread_step (ConsolePut e, cs) (lg, w) = Some ((ConsoleEndl e, cs), lg, cout_put e w)"
| "thread_step (ConsoleEndl e, cs) (lg, w) = Some ((TestOpen e, cs), lg, cout_endl w)"
| "thread_step (TestOpen e, cs) (lg, w) =
     (case logfile lg of Some p \<Rightarrow> Some ((FilePut e, cs), lg, w)
                       | None \<Rightarrow> Some ((Release, cs), lg, w))"
| "thread_step (FilePut e, cs) (lg, w) =
     (case logfile lg of Some p \<Rightarrow> Some ((FileEndl e, cs), lg, file_put p e w)
                       | None \<Rightarrow> Some ((FileEndl e, cs), lg, w))"
| "thread_step (FileEndl e, cs) (lg, w) =
     (case logfile lg of Some p \<Rightarrow> Some ((Release, cs), lg, file_endl p w)
                       | None \<Rightarrow> Some ((Release, cs), lg, w))"
| "thread_step (Release, cs) (lg, w) = Some ((Idle, cs), lg\<lparr>logMutex := False\<rparr>, w)"

text \<open>
  The threads and the state they share. The scheduler picks a thread; a thread that
  cannot move leaves everything as it is.
\<close>

type_synonym config = "thread list \<times> state"

definition sched_step :: "nat \<Rightarrow> config \<Rightarrow> config" where
  "sched_step i cfg = (case cfg of (ts, s) \<Rightarrow>
     (if i < length ts
      then (case thread_step (ts ! i) s of
              None \<Rightarrow> (ts, s)
            | Some (t', s') \<Rightarrow> (ts[i := t'], s'))
      else (ts, s)))"

fun exec :: "nat list \<Rightarrow> config \<Rightarrow> config" where
  "exec [] cfg = cfg"
| "exec (i # sch) cfg = exec sch (sched_step i cfg)"

text \<open>The lock is held from after \<open>Acquire\<close> to \<open>Release\<close>.\<close>

fun holds_lock :: "pc \<Rightarrow> bool" where
  "holds_lock Idle = False"
| "holds_lock (Acquire l m) = False"
| "holds_lock _ = True"

text \<open>The statements that are the five steps of an accepted call.\<close>

fun at_step :: "pc \<Rightarrow> bool" where
  "at_step (Build l m) = True"
| "at_step (ConsolePut e) = True"
| "at_step (ConsoleEndl e) = True"
| "at_step (TestOpen e) = True"
| "at_step (FilePut e) = True"
| "at_step (FileEndl e) = True"
| "at_step _ = False"

definition finished :: "thread list \<Rightarrow> bool" where
  "finished ts = list_all (\<lambda>t. t = (Idle, [])) ts"

definition spawn :: "call list list \<Rightarrow> thread list" where
  "spawn progs = map (\<lambda>cs. (Idle, cs)) progs"

section \<open>The driver\<close>








section \<open>What the specification expects\<close>

text \<open>The severity names of the specification.\<close>

fun severity_name :: "LogLevel \<Rightarrow> string" where
  "severity_name DEBUG = ''DEBUG''"
| "severity_name INFO = ''INFO''"
| "severity_name WARNING = ''WARNING''"
| "severity_name ERROR = ''ERROR''"
| "severity_name CRITICAL = ''CRITICAL''"

text \<open>
  The timestamp \<open>YYYY-MM-DD HH:MM:SS\<close> of a calendar date and a time of day, every
  field written with its fixed number of digits.
\<close>

definition timestamp_YmdHMS :: "nat \<Rightarrow> nat \<Rightarrow> nat \<Rightarrow> nat \<Rightarrow> nat \<Rightarrow> nat \<Rightarrow> string" where
  "timestamp_YmdHMS Y M D h mi s =
     [digit (Y div 1000), digit (Y div 100), digit (Y div 10), digit Y, CHR ''-'',
      digit (M div 10), digit M, CHR ''-'', digit (D div 10), digit D, CHR '' '',
      digit (h div 10), digit h, CHR '':'', digit (mi div 10), digit mi, CHR '':'',
      digit (s div 10), digit s]"

text \<open>The ranges of the fields of a local time whose year has four digits.\<close>

definition four_digit_time :: "tm \<Rightarrow> bool" where
  "four_digit_time t \<longleftrightarrow>
     1000 \<le> tm_year t + 1900 \<and> tm_year t + 1900 \<le> 9999 \<and> 0 \<le> tm_mon t \<and> tm_mon t \<le> 11 \<and>
     1 \<le> tm_mday t \<and> tm_mday t \<le> 31 \<and> 0 \<le> tm_hour t \<and> tm_hour t \<le> 23 \<and>
     0 \<le> tm_min t \<and> tm_min t \<le> 59 \<and> 0 \<le> tm_sec t \<and> tm_sec t \<le> 60"

text \<open>
  The bytes a sink receives from a sequence of calls under threshold \<open>m\<close>, when the
  clock has been read \<open>k\<close> times before: one terminated line per accepted call.
\<close>

fun emitted :: "(nat \<Rightarrow> tm) \<Rightarrow> nat \<Rightarrow> LogLevel \<Rightarrow> call list \<Rightarrow> string" where
  "emitted clk k m [] = []"
| "emitted clk k m (c # cs) =
     (if rank m \<le> rank (fst c)
      then logEntry (put_time (clk k)) (fst c) (snd c) @ [CHR 0x0A] @ emitted clk (Suc k) m cs
      else emitted clk k m cs)"

text \<open>A logger's whole life: construction, a sequence of calls, destruction.\<close>

definition session :: "string \<Rightarrow> LogLevel \<Rightarrow> call list \<Rightarrow> world \<Rightarrow> world option" where
  "session filename minLevel cs w =
     map_option (\<lambda>s. snd (Logger_dtor s)) (log_all cs (Logger_ctor filename minLevel w))"

section \<open>Auxiliary definitions\<close>

text \<open>
  The world after a sequence of calls on a logger whose mutex is free: the body of
  \<open>log\<close> for every call at or above the threshold, nothing for the others.
\<close>

fun log_all_world :: "call list \<Rightarrow> Logger \<Rightarrow> world \<Rightarrow> world" where
  "log_all_world [] lg w = w"
| "log_all_world (c # cs) lg w =
     (if level_less (fst c) (minimumLevel lg) then log_all_world cs lg w
      else log_all_world cs lg (log_body (fst c) (snd c) lg w))"

subsection \<open>Concrete inputs\<close>

text \<open>
  A local time (29 October 2026, 12:34:56); what \<open>localtime\<close> makes of that
  instant, one hour later under \<open>TZ=CET-1\<close> and this time otherwise; a world
  whose clock always shows that instant, with an empty environment, in which only
  \<open>app.log\<close> can be opened and no file exists yet; and a logger open on that file
  with threshold \<open>WARNING\<close>.
\<close>

definition tm0 :: tm where
  "tm0 = \<lparr>tm_sec = 56, tm_min = 34, tm_hour = 12, tm_mday = 29, tm_mon = 9, tm_year = 126\<rparr>"

definition localtime0 :: "string option \<Rightarrow> int \<Rightarrow> tm" where
  "localtime0 tz t = (if tz = Some ''CET-1'' then tm0\<lparr>tm_hour := 13\<rparr> else tm0)"

definition world0 :: world where
  "world0 = \<lparr>cout = [], cerr = [], files = Map.empty, openable = (\<lambda>p. p = ''app.log''),
     system_clock = (\<lambda>k. 1793277296), localtime = localtime0, clock_reads = 0,
     environ = Map.empty\<rparr>"

definition logger0 :: Logger where
  "logger0 = \<lparr>logfile = Some ''app.log'', minimumLevel = WARNING, logMutex = False\<rparr>"

subsection \<open>Operating states\<close>

text \<open>The two operating states of the specification, read off the file stream.\<close>

datatype operating_state = FileOpen | FileUnavailable

definition operating_state_of :: "Logger \<Rightarrow> operating_state" where
  "operating_state_of lg = (case logfile lg of Some p \<Rightarrow> FileOpen | None \<Rightarrow> FileUnavailable)"

subsection \<open>Relating an interleaved run to a sequential one\<close>

text \<open>
  Lines 81 to 83 as one function, and \<open>finish\<close>: what remains of the call of a
  thread that holds the lock, run to the end of the scope. A thread at \<open>Build\<close>
  has not read the clock yet: its call counts as not begun, and \<open>finish\<close> only
  unlocks.
\<close>

definition file_part :: "Logger \<Rightarrow> string \<Rightarrow> world \<Rightarrow> world" where
  "file_part lg e w = (case logfile lg of Some p \<Rightarrow> file_endl p (file_put p e w) | None \<Rightarrow> w)"

fun finish :: "pc \<Rightarrow> state \<Rightarrow> state" where
  "finish Idle s = s"
| "finish (Acquire l m) s = s"
| "finish (Build l m) (lg, w) = (lg\<lparr>logMutex := False\<rparr>, w)"
| "finish (ConsolePut e) (lg, w) = (lg\<lparr>logMutex := False\<rparr>, file_part lg e (cout_endl (cout_put e w)))"
| "finish (ConsoleEndl e) (lg, w) = (lg\<lparr>logMutex := False\<rparr>, file_part lg e (cout_endl w))"
| "finish (TestOpen e) (lg, w) = (lg\<lparr>logMutex := False\<rparr>, file_part lg e w)"
| "finish (FilePut e) (lg, w) = (lg\<lparr>logMutex := False\<rparr>, file_part lg e w)"
| "finish (FileEndl e) (lg, w) =
     (lg\<lparr>logMutex := False\<rparr>, case logfile lg of Some p \<Rightarrow> file_endl p w | None \<Rightarrow> w)"
| "finish Release (lg, w) = (lg\<lparr>logMutex := False\<rparr>, w)"

text \<open>
  The calls a thread has not yet committed to (a call counts from the moment its
  timestamp is taken), and the fact that a call waiting for or holding the lock has
  passed the threshold test.
\<close>

fun pending :: "thread \<Rightarrow> call list" where
  "pending (Acquire l m, cs) = (l, m) # cs"
| "pending (Build l m, cs) = (l, m) # cs"
| "pending (pc, cs) = cs"

fun passed :: "LogLevel \<Rightarrow> pc \<Rightarrow> bool" where
  "passed lim (Acquire l m) = (\<not> level_less l lim)"
| "passed lim (Build l m) = (\<not> level_less l lim)"
| "passed lim pc = True"

text \<open>
  The invariant of an interleaved run started in \<open>s0\<close>: at most one thread is
  between \<open>Acquire\<close> and \<open>Release\<close>, the mutex is locked exactly then, and
  the shared state, with the call of that thread run to its end, is the result of the
  sequential calls \<open>es\<close>; \<open>es\<close> and the calls still pending are together the
  calls \<open>C\<close> that the threads were given.
\<close>

definition others_out :: "nat \<Rightarrow> thread list \<Rightarrow> bool" where
  "others_out i ts = (\<forall>j<length ts. j \<noteq> i \<longrightarrow> \<not> holds_lock (fst (ts ! j)))"

definition linearised :: "state \<Rightarrow> call list \<Rightarrow> config \<Rightarrow> bool" where
  "linearised s0 es cfg = (case cfg of (ts, lg, w) \<Rightarrow>
     (if logMutex lg
      then \<exists>i<length ts. holds_lock (fst (ts ! i)) \<and> others_out i ts \<and>
             log_all es s0 = Some (finish (fst (ts ! i)) (lg, w))
      else (\<forall>j<length ts. \<not> holds_lock (fst (ts ! j))) \<and> log_all es s0 = Some (lg, w)))"

definition lin_inv :: "state \<Rightarrow> call multiset \<Rightarrow> config \<Rightarrow> bool" where
  "lin_inv s0 C cfg = (case cfg of (ts, lg, w) \<Rightarrow>
     (\<forall>t\<in>set ts. passed (minimumLevel lg) (fst t)) \<and>
     (\<exists>es. mset es + mset (concat (map pending ts)) = C \<and> linearised s0 es (ts, lg, w)))"

subsection \<open>Lines and schedules\<close>

text \<open>
  The lines of a sequence of accepted calls, the \<open>k\<close>-th clock reading going to
  the first, and their bytes in a sink: every line followed by a newline.
\<close>

fun rendered :: "(nat \<Rightarrow> tm) \<Rightarrow> nat \<Rightarrow> call list \<Rightarrow> string list" where
  "rendered clk k [] = []"
| "rendered clk k (c # cs) = logEntry (put_time (clk k)) (fst c) (snd c) # rendered clk (Suc k) cs"

definition terminated :: "string list \<Rightarrow> string" where
  "terminated ls = concat (map (\<lambda>l. l @ [CHR 0x0A]) ls)"

text \<open>
  Two threads with one call each on a logger with threshold \<open>INFO\<close>, and a
  schedule that alternates between them: the second thread waits at the lock while
  the first writes, then runs alone.
\<close>

definition logger1 :: Logger where
  "logger1 = \<lparr>logfile = Some ''app.log'', minimumLevel = INFO, logMutex = False\<rparr>"

definition progs1 :: "call list list" where
  "progs1 = [[(INFO, ''a'')], [(ERROR, ''b'')]]"

definition sched1 :: "nat list" where
  "sched1 = [0, 1, 0, 1, 0, 1, 0, 1, 0, 1, 0, 1, 0, 1, 0, 1, 0, 1, 1, 1, 1, 1, 1, 1, 1, 1]"

text \<open>The same world with a log file that already has a line.\<close>

definition world_old :: world where
  "world_old = world0\<lparr>files := [''app.log'' \<mapsto> ''old line'' @ [CHR 0x0A]]\<rparr>"

text \<open>
  The number of statements a thread has still to execute: those left of the call it
  is in, and those of the calls to come. \<open>opened\<close> says whether the file is open and
  \<open>lim\<close> is the threshold.
\<close>

fun pc_steps :: "bool \<Rightarrow> pc \<Rightarrow> nat" where
  "pc_steps opened Idle = 0"
| "pc_steps opened (Acquire l m) = (if opened then 8 else 6)"
| "pc_steps opened (Build l m) = (if opened then 7 else 5)"
| "pc_steps opened (ConsolePut e) = (if opened then 6 else 4)"
| "pc_steps opened (ConsoleEndl e) = (if opened then 5 else 3)"
| "pc_steps opened (TestOpen e) = (if opened then 4 else 2)"
| "pc_steps opened (FilePut e) = 3"
| "pc_steps opened (FileEndl e) = 2"
| "pc_steps opened Release = 1"

definition call_steps :: "bool \<Rightarrow> LogLevel \<Rightarrow> call \<Rightarrow> nat" where
  "call_steps opened lim c = (if level_less (fst c) lim then 1 else if opened then 9 else 7)"

definition steps_left :: "bool \<Rightarrow> LogLevel \<Rightarrow> thread \<Rightarrow> nat" where
  "steps_left opened lim t = pc_steps opened (fst t) + sum_list (map (call_steps opened lim) (snd t))"

definition steps_total :: "bool \<Rightarrow> LogLevel \<Rightarrow> thread list \<Rightarrow> nat" where
  "steps_total opened lim ts = sum_list (map (steps_left opened lim) ts)"





section \<open>Properties\<close>

lemma clock_update [simp]:
  "clock (w\<lparr>cout := a\<rparr>) = clock w" "clock (w\<lparr>cerr := b\<rparr>) = clock w"
  "clock (w\<lparr>files := c\<rparr>) = clock w" "clock (w\<lparr>openable := d\<rparr>) = clock w"
  "clock (w\<lparr>clock_reads := n\<rparr>) = clock w"
  by (simp_all add: clock_def)

lemma clock_record [simp]:
  "clock \<lparr>cout = a, cerr = b, files = c, openable = d, system_clock = s, localtime = l,
     clock_reads = n, environ = e\<rparr> = (\<lambda>k. l (e ''TZ'') (s k))"
  by (simp add: clock_def)

lemma getCurrentTime_eq:
  "getCurrentTime w = (put_time (clock w (clock_reads w)), w\<lparr>clock_reads := Suc (clock_reads w)\<rparr>)"
  by (simp add: getCurrentTime_def clock_def)

lemma levelToString_name: "levelToString l = severity_name l"
  by (cases l) (simp_all add: levelToString_def levelToString_switch_def)

lemma dec4: "1000 \<le> n \<Longrightarrow> n \<le> 9999 \<Longrightarrow> dec n = [digit (n div 1000), digit (n div 100), digit (n div 10), digit n]"
  apply (subst dec.simps) apply (subst dec.simps) apply (subst dec.simps) apply (subst dec.simps)
  apply (simp add: digit_def div_mult2_eq[symmetric])
  apply arith
  done

lemma put_time_format:
  assumes "four_digit_time t"
  shows "put_time t = timestamp_YmdHMS (nat (tm_year t + 1900)) (nat (tm_mon t + 1)) (nat (tm_mday t))
           (nat (tm_hour t)) (nat (tm_min t)) (nat (tm_sec t))"
proof -
  from assms have y: "1000 \<le> nat (tm_year t + 1900)" "nat (tm_year t + 1900) \<le> 9999" "\<not> tm_year t + 1900 < 0"
    by (auto simp: four_digit_time_def)
  show ?thesis
    by (simp add: put_time_def show_int_def y dec4[OF y(1,2)] pad2_def timestamp_YmdHMS_def)
qed

lemma log_filtered: "level_less l (minimumLevel lg) \<Longrightarrow> log l m (lg, w) = Some (lg, w)"
  by (simp add: log_def)

lemma log_blocked: "\<not> level_less l (minimumLevel lg) \<Longrightarrow> logMutex lg \<Longrightarrow> log l m (lg, w) = None"
  by (simp add: log_def)

lemma log_body_lock: "log_body l m (lg\<lparr>logMutex := b\<rparr>) w = log_body l m lg w"
  by (simp add: log_body_def)

lemma log_accepted: "\<not> level_less l (minimumLevel lg) \<Longrightarrow> \<not> logMutex lg \<Longrightarrow> log l m (lg, w) = Some (lg, log_body l m lg w)"
  by (simp add: log_def Let_def log_body_lock)

lemma log_body_fields:
  "cout (log_body l m lg w) = cout w @ logEntry (put_time (clock w (clock_reads w))) l m @ [CHR 0x0A]"
  "cerr (log_body l m lg w) = cerr w"
  "openable (log_body l m lg w) = openable w"
  "clock (log_body l m lg w) = clock w"
  "clock_reads (log_body l m lg w) = Suc (clock_reads w)"
  "environ (log_body l m lg w) = environ w"
  "logfile lg = None \<Longrightarrow> files (log_body l m lg w) = files w"
  "logfile lg = Some p \<Longrightarrow> files (log_body l m lg w) =
      (files w)(p \<mapsto> file_bytes w p @ logEntry (put_time (clock w (clock_reads w))) l m @ [CHR 0x0A])"
  by (simp_all add: log_body_def getCurrentTime_eq cout_put_def cout_endl_def file_put_def file_endl_def file_bytes_def Let_def split: option.splits)

lemma log_body_bytes:
  "logfile lg = Some p \<Longrightarrow> file_bytes (log_body l m lg w) p =
      file_bytes w p @ logEntry (put_time (clock w (clock_reads w))) l m @ [CHR 0x0A]"
  "logfile lg = Some p \<Longrightarrow> q \<noteq> p \<Longrightarrow> files (log_body l m lg w) q = files w q"
  "logfile lg = Some p \<Longrightarrow> files (log_body l m lg w) p \<noteq> None"
  by (simp_all add: file_bytes_def log_body_fields)

lemma log_all_eq: "\<not> logMutex lg \<Longrightarrow> log_all cs (lg, w) = Some (lg, log_all_world cs lg w)"
  by (induction cs arbitrary: w) (simp_all add: log_filtered log_accepted)

lemma law_clock [simp]: "clock (log_all_world cs lg w) = clock w"
  by (induction cs arbitrary: w) (simp_all add: log_body_fields)

lemma law_cerr [simp]: "cerr (log_all_world cs lg w) = cerr w"
  by (induction cs arbitrary: w) (simp_all add: log_body_fields)

lemma law_openable [simp]: "openable (log_all_world cs lg w) = openable w"
  by (induction cs arbitrary: w) (simp_all add: log_body_fields)

lemma law_environ [simp]: "environ (log_all_world cs lg w) = environ w"
  by (induction cs arbitrary: w) (simp_all add: log_body_fields)

lemma law_reads: "clock_reads (log_all_world cs lg w) =
    clock_reads w + length (filter (\<lambda>c. rank (minimumLevel lg) \<le> rank (fst c)) cs)"
  by (induction cs arbitrary: w) (simp_all add: log_body_fields level_less_def)

lemma law_cout: "cout (log_all_world cs lg w) = cout w @ emitted (clock w) (clock_reads w) (minimumLevel lg) cs"
  by (induction cs arbitrary: w) (simp_all add: log_body_fields level_less_def)

lemma law_files_closed: "logfile lg = None \<Longrightarrow> files (log_all_world cs lg w) = files w"
  by (induction cs arbitrary: w) (simp_all add: log_body_fields)

lemma law_bytes: "logfile lg = Some p \<Longrightarrow>
   file_bytes (log_all_world cs lg w) p = file_bytes w p @ emitted (clock w) (clock_reads w) (minimumLevel lg) cs"
  by (induction cs arbitrary: w) (simp_all add: log_body_fields log_body_bytes level_less_def)


lemma law_exists: "logfile lg = Some p \<Longrightarrow> files w p \<noteq> None \<Longrightarrow> files (log_all_world cs lg w) p \<noteq> None"
proof (induction cs arbitrary: w)
  case Nil
  then show ?case by simp
next
  case (Cons c cs)
  have "files (log_body (fst c) (snd c) lg w) p \<noteq> None"
    using Cons.prems(1) by (rule log_body_bytes(3))
  from Cons.IH[OF Cons.prems(1) this] Cons.IH[OF Cons.prems] show ?case by simp
qed

lemma bytes_Some: "files w p \<noteq> None \<Longrightarrow> files w p = Some (file_bytes w p)"
  by (auto simp: file_bytes_def)

lemma ctor_open:
  "openable w p \<Longrightarrow> Logger_ctor p m w =
     (\<lparr>logfile = Some p, minimumLevel = m, logMutex = False\<rparr>, w\<lparr>files := (files w)(p \<mapsto> file_bytes w p)\<rparr>)"
  by (simp add: Logger_ctor_def file_open_app_def)

lemma ctor_fail:
  "\<not> openable w p \<Longrightarrow> Logger_ctor p m w =
     (\<lparr>logfile = None, minimumLevel = m, logMutex = False\<rparr>,
      w\<lparr>cerr := cerr w @ ''Failed to open the log file : '' @ p @ [CHR 0x0A]\<rparr>)"
  by (simp add: Logger_ctor_def file_open_app_def cerr_put_def cerr_endl_def)

lemma localtime0_simps [simp]:
  "localtime0 None t = tm0" "localtime0 (Some ''CET-1'') t = tm0\<lparr>tm_hour := 13\<rparr>"
  by (simp_all add: localtime0_def)

lemma clock_world0 [simp]: "clock world0 = (\<lambda>k. tm0)"
  by (simp add: world0_def)

lemma put_time_tm0: "put_time tm0 = ''2026-10-29 12:34:56''"
  by (simp add: put_time_def tm0_def show_int_def pad2_def digit_def dec.simps)

text \<open>
  Claim C2. A call below the threshold returns the state it was given, whatever the
  mutex is: nothing is written, the clock is not read, the mutex is not touched. A call
  at or above the threshold, on a free mutex, reads the clock once and appends one
  line and a newline to the console, and the same bytes to the file when it is open.
  Below the threshold means \<open>\<not> s \<ge> m\<close> on the ranks.
\<close>

theorem log_filtering:
  "(level_less s (minimumLevel lg) \<longrightarrow> log s msg (lg, w) = Some (lg, w)) \<and>
   (\<not> level_less s (minimumLevel lg) \<longrightarrow> \<not> logMutex lg \<longrightarrow>
      (\<exists>w'. log s msg (lg, w) = Some (lg, w') \<and>
         cout w' = cout w @ logEntry (put_time (clock w (clock_reads w))) s msg @ [CHR 0x0A] \<and>
         (\<forall>p. logfile lg = Some p \<longrightarrow>
            files w' = (files w)(p \<mapsto> file_bytes w p @ logEntry (put_time (clock w (clock_reads w))) s msg @ [CHR 0x0A])) \<and>
         (logfile lg = None \<longrightarrow> files w' = files w) \<and>
         cerr w' = cerr w \<and> clock_reads w' = Suc (clock_reads w))) \<and>
   (level_less s (minimumLevel lg) \<longleftrightarrow> \<not> rank (minimumLevel lg) \<le> rank s)"
proof (intro conjI impI)
  assume "level_less s (minimumLevel lg)"
  then show "log s msg (lg, w) = Some (lg, w)" by (rule log_filtered)
next
  assume a: "\<not> level_less s (minimumLevel lg)" "\<not> logMutex lg"
  show "\<exists>w'. log s msg (lg, w) = Some (lg, w') \<and>
         cout w' = cout w @ logEntry (put_time (clock w (clock_reads w))) s msg @ [CHR 0x0A] \<and>
         (\<forall>p. logfile lg = Some p \<longrightarrow>
            files w' = (files w)(p \<mapsto> file_bytes w p @ logEntry (put_time (clock w (clock_reads w))) s msg @ [CHR 0x0A])) \<and>
         (logfile lg = None \<longrightarrow> files w' = files w) \<and>
         cerr w' = cerr w \<and> clock_reads w' = Suc (clock_reads w)"
    by (rule exI[of _ "log_body s msg lg w"]) (simp add: log_accepted[OF a] log_body_fields)
next
  show "level_less s (minimumLevel lg) \<longleftrightarrow> \<not> rank (minimumLevel lg) \<le> rank s"
    by (auto simp: level_less_def)
qed

theorem log_filtering_witness:
  "log DEBUG ''x'' (logger0\<lparr>logMutex := True\<rparr>, world0) = Some (logger0\<lparr>logMutex := True\<rparr>, world0) \<and>
   (\<exists>w'. log ERROR ''y'' (logger0, world0) = Some (logger0, w') \<and>
      cout w' = ''[2026-10-29 12:34:56][ERROR]y'' @ [CHR 0x0A] \<and>
      files w' ''app.log'' = Some (''[2026-10-29 12:34:56][ERROR]y'' @ [CHR 0x0A]) \<and>
      clock_reads w' = 1)"
  using log_filtering [of DEBUG "logger0\<lparr>logMutex := True\<rparr>" "''x''" world0]
        log_filtering [of ERROR logger0 "''y''" world0]
  by (auto simp: logger0_def world0_def level_less_def logEntry_def levelToString_def
      levelToString_switch_def put_time_tm0 file_bytes_def)

text \<open>
  Claim C3. For an accepted call at a local time whose year has four digits, the
  bytes appended to the console are \<open>[YYYY-MM-DD HH:MM:SS][NAME]message\<close> and a
  newline, with nothing between the closing bracket and the message, and the bytes
  appended to the open file are the same bytes. The time is the reading of the clock
  that the call makes.
\<close>

theorem log_line_format:
  assumes "\<not> level_less s (minimumLevel lg)" and "\<not> logMutex lg"
    and "four_digit_time (clock w (clock_reads w))"
  shows "\<exists>w' line.
     line = ''['' @ timestamp_YmdHMS (nat (tm_year (clock w (clock_reads w)) + 1900))
                (nat (tm_mon (clock w (clock_reads w)) + 1)) (nat (tm_mday (clock w (clock_reads w))))
                (nat (tm_hour (clock w (clock_reads w)))) (nat (tm_min (clock w (clock_reads w))))
                (nat (tm_sec (clock w (clock_reads w))))
        @ '']['' @ severity_name s @ '']'' @ msg @ [CHR 0x0A] \<and>
     log s msg (lg, w) = Some (lg, w') \<and>
     cout w' = cout w @ line \<and>
     (\<forall>p. logfile lg = Some p \<longrightarrow> file_bytes w' p = file_bytes w p @ line)"
proof -
  let ?t = "clock w (clock_reads w)"
  let ?line = "''['' @ timestamp_YmdHMS (nat (tm_year ?t + 1900)) (nat (tm_mon ?t + 1)) (nat (tm_mday ?t))
                (nat (tm_hour ?t)) (nat (tm_min ?t)) (nat (tm_sec ?t))
        @ '']['' @ severity_name s @ '']'' @ msg @ [CHR 0x0A]"
  have e: "logEntry (put_time ?t) s msg @ [CHR 0x0A] = ?line"
    by (simp add: logEntry_def put_time_format[OF assms(3)] levelToString_name)
  have c: "cout (log_body s msg lg w) = cout w @ ?line"
    using log_body_fields(1)[of s msg lg w] e by simp
  have f: "\<forall>p. logfile lg = Some p \<longrightarrow> file_bytes (log_body s msg lg w) p = file_bytes w p @ ?line"
    using log_body_bytes(1)[of lg _ s msg w] e by simp
  have l: "log s msg (lg, w) = Some (lg, log_body s msg lg w)"
    by (rule log_accepted[OF assms(1,2)])
  show ?thesis
    by (rule exI[of _ "log_body s msg lg w"], rule exI[of _ ?line]) (intro conjI refl l c f)
qed

theorem log_line_format_witness:
  "\<not> level_less INFO (minimumLevel (logger0\<lparr>minimumLevel := DEBUG\<rparr>)) \<and> \<not> logMutex (logger0\<lparr>minimumLevel := DEBUG\<rparr>) \<and>
   four_digit_time (clock world0 (clock_reads world0)) \<and>
   (\<exists>w'. log INFO ''boot'' (logger0\<lparr>minimumLevel := DEBUG\<rparr>, world0) = Some (logger0\<lparr>minimumLevel := DEBUG\<rparr>, w') \<and>
      cout w' = ''[2026-10-29 12:34:56][INFO]boot'' @ [CHR 0x0A] \<and>
      file_bytes w' ''app.log'' = ''[2026-10-29 12:34:56][INFO]boot'' @ [CHR 0x0A])"
proof -
  have h1: "\<not> level_less INFO (minimumLevel (logger0\<lparr>minimumLevel := DEBUG\<rparr>))"
    by (simp add: level_less_def)
  have h2: "\<not> logMutex (logger0\<lparr>minimumLevel := DEBUG\<rparr>)"
    by (simp add: logger0_def)
  have h3: "four_digit_time (clock world0 (clock_reads world0))"
    by (simp add: world0_def tm0_def four_digit_time_def)
  show ?thesis
    using h1 h2 h3 log_line_format [OF h1 h2 h3, of "''boot''"]
    by (auto simp: logger0_def world0_def tm0_def timestamp_YmdHMS_def digit_def file_bytes_def)
qed

text \<open>
  Claim C5. Each wrapper is \<open>log\<close> at its level: same result, same state.
\<close>

theorem wrappers_forward:
  "debug msg s = log DEBUG msg s \<and> info msg s = log INFO msg s \<and>
   warning msg s = log WARNING msg s \<and> error msg s = log ERROR msg s \<and>
   critical msg s = log CRITICAL msg s"
  by (simp add: debug_def info_def warning_def error_def critical_def)

text \<open>
  Claim C8. The five levels are ranked 0 to 4 in the order DEBUG, INFO, WARNING, ERROR,
  CRITICAL; the comparison used by \<open>log\<close> is the comparison of the ranks, a
  strict total order; and \<open>log\<close> is a no-op exactly when the level is below the
  threshold in this order.
\<close>

theorem severity_total_order:
  "rank DEBUG < rank INFO \<and> rank INFO < rank WARNING \<and> rank WARNING < rank ERROR \<and>
   rank ERROR < rank CRITICAL \<and>
   (\<forall>a b. level_less a b = (rank a < rank b)) \<and>
   (\<forall>a b. (rank a = rank b) = (a = b)) \<and>
   (\<forall>a b. level_less a b \<or> a = b \<or> level_less b a) \<and>
   (\<forall>a. \<not> level_less a a) \<and>
   (\<forall>a b c. level_less a b \<longrightarrow> level_less b c \<longrightarrow> level_less a c) \<and>
   (\<forall>s msg lg w. (log s msg (lg, w) = Some (lg, w)) = level_less s (minimumLevel lg))"
proof -
  have inj: "\<And>a b. (rank a = rank b) = (a = b)"
    subgoal for a b by (cases a; cases b) simp_all done
  have tot: "\<And>a b. level_less a b \<or> a = b \<or> level_less b a"
    using inj by (auto simp: level_less_def)
  have dec: "\<And>s msg lg w. (log s msg (lg, w) = Some (lg, w)) = level_less s (minimumLevel lg)"
  proof -
    fix s msg lg w
    show "(log s msg (lg, w) = Some (lg, w)) = level_less s (minimumLevel lg)"
    proof (cases "level_less s (minimumLevel lg)")
      case True
      then show ?thesis by (simp add: log_filtered)
    next
      case False
      show ?thesis
      proof (cases "logMutex lg")
        case True
        with False show ?thesis by (simp add: log_blocked)
      next
        case f: False
        have "clock_reads (log_body s msg lg w) \<noteq> clock_reads w" by (simp add: log_body_fields)
        then have "log_body s msg lg w \<noteq> w" by auto
        with False f show ?thesis by (simp add: log_accepted)
      qed
    qed
  qed
  show ?thesis
    apply (intro conjI allI)
             apply simp_all
         apply (simp add: level_less_def)
        apply (rule inj)
       apply (rule tot)
      apply (simp add: level_less_def)
     apply (simp add: level_less_def)
    apply (rule dec)
    done
qed

theorem severity_total_order_witness:
  "level_less DEBUG WARNING \<and> level_less WARNING CRITICAL \<and> level_less DEBUG CRITICAL"
proof -
  have a: "level_less DEBUG WARNING" "level_less WARNING CRITICAL" by (simp_all add: level_less_def)
  from severity_total_order have "level_less DEBUG WARNING \<longrightarrow> level_less WARNING CRITICAL \<longrightarrow> level_less DEBUG CRITICAL"
    by blast
  with a show ?thesis by simp
qed











lemma log_keeps: "log l m (lg, w) = Some (lg', w') \<Longrightarrow> logfile lg' = logfile lg \<and> minimumLevel lg' = minimumLevel lg"
  by (auto simp: log_def Let_def split: if_splits)

lemma log_keeps': "log l m s = Some s' \<Longrightarrow> logfile (fst s') = logfile (fst s) \<and> minimumLevel (fst s') = minimumLevel (fst s)"
  using log_keeps[of l m "fst s" "snd s" "fst s'" "snd s'"] by simp

lemma log_all_keeps: "log_all cs s = Some s' \<Longrightarrow> logfile (fst s') = logfile (fst s) \<and> minimumLevel (fst s') = minimumLevel (fst s)"
proof (induction cs arbitrary: s)
  case Nil
  then show ?case by simp
next
  case (Cons c cs)
  from Cons.prems obtain s1 where s1: "log (fst c) (snd c) s = Some s1" "log_all cs s1 = Some s'"
    by (auto split: option.splits)
  from log_keeps'[OF s1(1)] Cons.IH[OF s1(2)] show ?case by simp
qed

lemma thread_step_keeps:
  "thread_step t (lg, w) = Some (t', lg', w') \<Longrightarrow> logfile lg' = logfile lg \<and> minimumLevel lg' = minimumLevel lg"
  by (induction t "(lg, w)" rule: thread_step.induct)
     (auto simp: Let_def getCurrentTime_eq split: if_splits option.splits)

lemma sched_step_keeps:
  "sched_step i (ts, lg, w) = (ts', lg', w') \<Longrightarrow> logfile lg' = logfile lg \<and> minimumLevel lg' = minimumLevel lg"
  by (auto simp: sched_step_def split: if_splits option.splits dest: thread_step_keeps)

lemma exec_keeps:
  "exec sch (ts, lg, w) = (ts', lg', w') \<Longrightarrow> logfile lg' = logfile lg \<and> minimumLevel lg' = minimumLevel lg"
proof (induction sch arbitrary: ts lg w)
  case Nil
  then show ?case by simp
next
  case (Cons i sch)
  obtain ts1 lg1 w1 where s: "sched_step i (ts, lg, w) = (ts1, lg1, w1)" by (metis prod_cases3)
  with Cons.prems have "exec sch (ts1, lg1, w1) = (ts', lg', w')" by simp
  from Cons.IH[OF this] sched_step_keeps[OF s] show ?case by simp
qed

text \<open>
  Claim C6. The constructor decides the operating state (the file is open exactly
  when the path could be opened) and the threshold; \<open>log\<close>, any sequence of
  calls, and any interleaved run of threads leave both as they are. Only the destructor
  closes the file.
\<close>

theorem operating_state_fixed:
  "operating_state_of (fst (Logger_ctor p m w)) = (if openable w p then FileOpen else FileUnavailable) \<and>
   minimumLevel (fst (Logger_ctor p m w)) = m \<and>
   (\<forall>s'. log l msg s = Some s' \<longrightarrow>
      operating_state_of (fst s') = operating_state_of (fst s) \<and> logfile (fst s') = logfile (fst s) \<and>
      minimumLevel (fst s') = minimumLevel (fst s)) \<and>
   (\<forall>s'. log_all cs s = Some s' \<longrightarrow>
      operating_state_of (fst s') = operating_state_of (fst s) \<and> logfile (fst s') = logfile (fst s) \<and>
      minimumLevel (fst s') = minimumLevel (fst s)) \<and>
   (\<forall>ts' s'. exec sch (ts, s) = (ts', s') \<longrightarrow>
      operating_state_of (fst s') = operating_state_of (fst s) \<and> logfile (fst s') = logfile (fst s) \<and>
      minimumLevel (fst s') = minimumLevel (fst s)) \<and>
   operating_state_of (fst (Logger_dtor s)) = FileUnavailable"
proof (intro conjI allI impI)
  show "operating_state_of (fst (Logger_ctor p m w)) = (if openable w p then FileOpen else FileUnavailable)"
    by (simp add: operating_state_of_def ctor_open ctor_fail)
  show "minimumLevel (fst (Logger_ctor p m w)) = m"
    by (cases "openable w p") (simp_all add: ctor_open ctor_fail)
  show "operating_state_of (fst (Logger_dtor s)) = FileUnavailable"
    by (cases s) (simp add: Logger_dtor_def operating_state_of_def)
next
  fix s' assume "log l msg s = Some s'"
  from log_keeps'[OF this]
  show "operating_state_of (fst s') = operating_state_of (fst s)" "logfile (fst s') = logfile (fst s)"
    "minimumLevel (fst s') = minimumLevel (fst s)"
    by (simp_all add: operating_state_of_def)
next
  fix s' assume "log_all cs s = Some s'"
  from log_all_keeps[OF this]
  show "operating_state_of (fst s') = operating_state_of (fst s)" "logfile (fst s') = logfile (fst s)"
    "minimumLevel (fst s') = minimumLevel (fst s)"
    by (simp_all add: operating_state_of_def)
next
  fix ts' s' assume "exec sch (ts, s) = (ts', s')"
  then have "exec sch (ts, fst s, snd s) = (ts', fst s', snd s')" by simp
  from exec_keeps[OF this]
  show "operating_state_of (fst s') = operating_state_of (fst s)" "logfile (fst s') = logfile (fst s)"
    "minimumLevel (fst s') = minimumLevel (fst s)"
    by (simp_all add: operating_state_of_def)
qed

lemma dtor_world: "snd (Logger_dtor s) = snd s"
  by (cases s) (simp add: Logger_dtor_def)

lemma session_open:
  assumes "openable w p"
  shows "session p m cs w = Some (log_all_world cs \<lparr>logfile = Some p, minimumLevel = m, logMutex = False\<rparr>
            (w\<lparr>files := (files w)(p \<mapsto> file_bytes w p)\<rparr>))"
  by (simp add: session_def ctor_open[OF assms] log_all_eq dtor_world)

lemma bytes_after_open: "file_bytes (w\<lparr>files := (files w)(p \<mapsto> file_bytes w p)\<rparr>) p = file_bytes w p"
  by (simp add: file_bytes_def)

lemma session_bytes:
  assumes "openable w p" and "session p m cs w = Some w'"
  shows "files w' p = Some (file_bytes w p @ emitted (clock w) (clock_reads w) m cs)"
    and "openable w' = openable w" and "clock w' = clock w"
proof -
  let ?lg = "\<lparr>logfile = Some p, minimumLevel = m, logMutex = False\<rparr>"
  let ?w1 = "w\<lparr>files := (files w)(p \<mapsto> file_bytes w p)\<rparr>"
  from assms session_open[OF assms(1), of m cs] have w': "w' = log_all_world cs ?lg ?w1" by simp
  have ex: "files w' p \<noteq> None" unfolding w' by (rule law_exists) simp_all
  have "file_bytes w' p = file_bytes ?w1 p @ emitted (clock ?w1) (clock_reads ?w1) (minimumLevel ?lg) cs"
    unfolding w' by (rule law_bytes) simp
  then have "file_bytes w' p = file_bytes w p @ emitted (clock w) (clock_reads w) m cs"
    by (simp add: bytes_after_open)
  with bytes_Some[OF ex] show "files w' p = Some (file_bytes w p @ emitted (clock w) (clock_reads w) m cs)"
    by simp
  show "openable w' = openable w" "clock w' = clock w" by (simp_all add: w')
qed

text \<open>
  Claim C7. Opening for append keeps the bytes the file already has and touches no
  other file; after any sequence of calls the file holds its old bytes followed by the
  lines of the accepted calls; a single call can only add bytes at the end; and two
  loggers, one after the other on the same path, leave the old bytes, then the lines
  of the first, then the lines of the second.
\<close>

theorem append_mode:
  assumes "openable w p"
  shows "\<exists>lg w1. Logger_ctor p m w = (lg, w1) \<and> files w1 p = Some (file_bytes w p) \<and>
           (\<forall>q. q \<noteq> p \<longrightarrow> files w1 q = files w q) \<and>
           (\<exists>w2. log_all cs (lg, w1) = Some (lg, w2) \<and>
                 files w2 p = Some (file_bytes w p @ emitted (clock w) (clock_reads w) m cs)) \<and>
           (\<forall>l msg w3 s'. log l msg (lg, w3) = Some s' \<longrightarrow>
                 (\<exists>suffix. file_bytes (snd s') p = file_bytes w3 p @ suffix)) \<and>
           (\<exists>wA wB. session p m cs w = Some wA \<and> session p m' cs' wA = Some wB \<and>
                 files wB p = Some (file_bytes w p @ emitted (clock w) (clock_reads w) m cs
                                      @ emitted (clock w) (clock_reads wA) m' cs'))"
proof -
  let ?lg = "\<lparr>logfile = Some p, minimumLevel = m, logMutex = False\<rparr>"
  let ?w1 = "w\<lparr>files := (files w)(p \<mapsto> file_bytes w p)\<rparr>"
  have c: "Logger_ctor p m w = (?lg, ?w1)" by (rule ctor_open[OF assms])
  have f1: "files ?w1 p = Some (file_bytes w p)" by simp
  have f2: "\<forall>q. q \<noteq> p \<longrightarrow> files ?w1 q = files w q" by simp
  obtain wA where wA: "session p m cs w = Some wA" using session_open[OF assms] by blast
  note A = session_bytes[OF assms wA]
  have oA: "openable wA p" using A(2) assms by simp
  obtain wB where wB: "session p m' cs' wA = Some wB" using session_open[OF oA] by blast
  note B = session_bytes[OF oA wB]
  have fA: "file_bytes wA p = file_bytes w p @ emitted (clock w) (clock_reads w) m cs"
    using A(1) by (simp add: file_bytes_def)
  have two: "files wB p = Some (file_bytes w p @ emitted (clock w) (clock_reads w) m cs
                                      @ emitted (clock w) (clock_reads wA) m' cs')"
    using B(1) fA A(3) by simp
  have la: "log_all cs (?lg, ?w1) = Some (?lg, log_all_world cs ?lg ?w1)"
    by (rule log_all_eq) simp
  have wAeq: "wA = log_all_world cs ?lg ?w1" using wA session_open[OF assms, of m cs] by simp
  have one: "\<forall>l msg w3 s'. log l msg (?lg, w3) = Some s' \<longrightarrow>
                 (\<exists>suffix. file_bytes (snd s') p = file_bytes w3 p @ suffix)"
  proof (intro allI impI)
    fix l msg w3 s' assume h: "log l msg (?lg, w3) = Some s'"
    show "\<exists>suffix. file_bytes (snd s') p = file_bytes w3 p @ suffix"
    proof (cases "level_less l m")
      case True
      with h have "s' = (?lg, w3)" by (simp add: log_filtered)
      then show ?thesis by simp
    next
      case False
      with h have "s' = (?lg, log_body l msg ?lg w3)" by (simp add: log_accepted)
      then show ?thesis by (simp add: log_body_bytes)
    qed
  qed
  show ?thesis
    apply (rule exI[of _ ?lg], rule exI[of _ ?w1])
    apply (intro conjI)
        apply (rule c)
       apply (rule f1)
      apply (rule f2)
     apply (rule exI[of _ wA])
    using la wAeq A(1) apply simp
     apply (rule one)
    apply (rule exI[of _ wA], rule exI[of _ wB])
    using wA wB two apply simp
    done
qed

text \<open>
  Claim C4. When the path cannot be opened, the constructor still returns a logger
  (with no file), having written one line to \<open>std::cerr\<close> and nothing to the
  console or to any file. Every sequence of calls on it returns, writes to the console
  exactly what the same calls write on a logger whose file did open, and leaves
  \<open>std::cerr\<close> and the files as they were.
\<close>

theorem degraded_mode:
  assumes "\<not> openable w p" and "openable w' q"
    and "cout w' = cout w" and "clock w' = clock w" and "clock_reads w' = clock_reads w"
  shows "\<exists>lg wd w1 lg' w2. Logger_ctor p m w = (lg, wd) \<and> logfile lg = None \<and> minimumLevel lg = m \<and>
           cerr wd = cerr w @ ''Failed to open the log file : '' @ p @ [CHR 0x0A] \<and>
           cout wd = cout w \<and> files wd = files w \<and>
           log_all cs (lg, wd) = Some (lg, w1) \<and>
           log_all cs (Logger_ctor q m w') = Some (lg', w2) \<and>
           cout w1 = cout w2 \<and>
           cout w1 = cout w @ emitted (clock w) (clock_reads w) m cs \<and>
           cerr w1 = cerr wd \<and> files w1 = files w"
proof -
  let ?lg = "\<lparr>logfile = None, minimumLevel = m, logMutex = False\<rparr>"
  let ?wd = "w\<lparr>cerr := cerr w @ ''Failed to open the log file : '' @ p @ [CHR 0x0A]\<rparr>"
  let ?lg' = "\<lparr>logfile = Some q, minimumLevel = m, logMutex = False\<rparr>"
  let ?w1' = "w'\<lparr>files := (files w')(q \<mapsto> file_bytes w' q)\<rparr>"
  have c: "Logger_ctor p m w = (?lg, ?wd)" by (rule ctor_fail[OF assms(1)])
  have c': "Logger_ctor q m w' = (?lg', ?w1')" by (rule ctor_open[OF assms(2)])
  have la: "log_all cs (?lg, ?wd) = Some (?lg, log_all_world cs ?lg ?wd)" by (rule log_all_eq) simp
  have la': "log_all cs (?lg', ?w1') = Some (?lg', log_all_world cs ?lg' ?w1')" by (rule log_all_eq) simp
  have co: "cout (log_all_world cs ?lg ?wd) = cout w @ emitted (clock w) (clock_reads w) m cs"
    by (simp add: law_cout)
  have co': "cout (log_all_world cs ?lg' ?w1') = cout w @ emitted (clock w) (clock_reads w) m cs"
    by (simp add: law_cout assms)
  have fi: "files (log_all_world cs ?lg ?wd) = files w" by (simp add: law_files_closed)
  show ?thesis
    apply (rule exI[of _ ?lg], rule exI[of _ ?wd], rule exI[of _ "log_all_world cs ?lg ?wd"],
        rule exI[of _ ?lg'], rule exI[of _ "log_all_world cs ?lg' ?w1'"])
    apply (simp only: c c' la la' co co' fi)
    apply simp
    done
qed

lemma log_all_append:
  "log_all (es @ [c]) s0 = (case log_all es s0 of None \<Rightarrow> None | Some s \<Rightarrow> log (fst c) (snd c) s)"
  by (induction es arbitrary: s0) (simp_all split: option.splits)

lemma finish_min: "minimumLevel (fst (finish pc (lg, w))) = minimumLevel lg"
  by (cases pc) simp_all

lemma finish_unlocked: "holds_lock pc \<Longrightarrow> \<not> logMutex (fst (finish pc (lg, w)))"
  by (cases pc) simp_all

lemma pending_update:
  "i < length ts \<Longrightarrow> mset (concat (map pending (ts[i := t]))) + mset (pending (ts ! i))
     = mset (concat (map pending ts)) + mset (pending t)"
proof -
  assume i: "i < length ts"
  have a: "ts = take i ts @ ts ! i # drop (Suc i) ts" using i by (simp add: id_take_nth_drop)
  have b: "ts[i := t] = take i ts @ t # drop (Suc i) ts" using i by (simp add: upd_conv_take_nth_drop)
  have "mset (concat (map pending (take i ts @ t # drop (Suc i) ts))) + mset (pending (ts ! i))
     = mset (concat (map pending (take i ts @ ts ! i # drop (Suc i) ts))) + mset (pending t)"
    by simp
  with a b show ?thesis by simp
qed

text \<open>the steps of the thread that holds the lock\<close>

lemma holder_step:
  assumes "thread_step (pc, cs) (lg, w) = Some ((pc', cs'), lg', w')" and "holds_lock pc" and "logMutex lg"
    and "passed (minimumLevel lg) pc"
  shows "(case pc of
            Build l m \<Rightarrow> log l m (finish pc (lg, w)) = Some (finish pc' (lg', w')) \<and> holds_lock pc' \<and> logMutex lg' \<and>
               pending (pc, cs) = (l, m) # pending (pc', cs')
          | Release \<Rightarrow> (lg', w') = finish pc (lg, w) \<and> pc' = Idle \<and> \<not> logMutex lg' \<and> pending (pc, cs) = pending (pc', cs')
          | _ \<Rightarrow> finish pc' (lg', w') = finish pc (lg, w) \<and> holds_lock pc' \<and> logMutex lg' \<and> pending (pc, cs) = pending (pc', cs'))
         \<and> passed (minimumLevel lg') pc' \<and> minimumLevel lg' = minimumLevel lg"
  using assms
  by (cases pc)
     (auto simp: file_part_def log_def log_body_def Let_def getCurrentTime_eq file_endl_def
        split: option.splits if_splits)

lemma other_step:
  assumes "thread_step (pc, cs) (lg, w) = Some ((pc', cs'), lg', w')" and "\<not> holds_lock pc"
    and "passed (minimumLevel lg) pc"
  shows "w' = w \<and> minimumLevel lg' = minimumLevel lg \<and> passed (minimumLevel lg') pc' \<and>
     (case pc of
        Idle \<Rightarrow> lg' = lg \<and> (\<exists>c. cs = c # cs' \<and>
                  (if level_less (fst c) (minimumLevel lg) then pc' = Idle
                   else pc' = Acquire (fst c) (snd c)))
      | Acquire l m \<Rightarrow> \<not> logMutex lg \<and> lg' = lg\<lparr>logMutex := True\<rparr> \<and> pc' = Build l m \<and> cs' = cs
      | _ \<Rightarrow> False)"
  using assms
  by (cases pc; cases cs) (auto split: if_splits)

lemma lin_other_same:
  assumes "linearised s0 es (ts, lg, w)" and "i < length ts" and "\<not> holds_lock (fst (ts ! i))"
    and "\<not> holds_lock pc'"
  shows "linearised s0 es (ts[i := (pc', cs')], lg, w)"
proof (cases "logMutex lg")
  case True
  with assms(1) obtain h where h: "h < length ts" "holds_lock (fst (ts ! h))" "others_out h ts"
      "log_all es s0 = Some (finish (fst (ts ! h)) (lg, w))"
    by (auto simp: linearised_def)
  from h(2) assms(3) have ne: "h \<noteq> i" by auto
  have "others_out h (ts[i := (pc', cs')])"
    using h(3) assms(2,4) by (auto simp: others_out_def nth_list_update)
  with h ne True show ?thesis
    by (auto simp: linearised_def intro!: exI[of _ h])
next
  case False
  with assms show ?thesis
    by (auto simp: linearised_def nth_list_update)
qed

lemma lin_filtered:
  assumes "linearised s0 es (ts, lg, w)" and "level_less (fst c) (minimumLevel lg)"
  shows "linearised s0 (es @ [c]) (ts, lg, w)"
proof (cases "logMutex lg")
  case True
  with assms(1) obtain h where h: "h < length ts" "holds_lock (fst (ts ! h))" "others_out h ts"
      "log_all es s0 = Some (finish (fst (ts ! h)) (lg, w))"
    by (auto simp: linearised_def)
  obtain lg1 w1 where f: "finish (fst (ts ! h)) (lg, w) = (lg1, w1)" by (metis surj_pair)
  have "minimumLevel lg1 = minimumLevel lg" using finish_min[of "fst (ts ! h)" lg w] f by simp
  with assms(2) have "log (fst c) (snd c) (lg1, w1) = Some (lg1, w1)" by (simp add: log_filtered)
  with h f True show ?thesis
    by (auto simp: linearised_def log_all_append intro!: exI[of _ h])
next
  case False
  with assms show ?thesis
    by (auto simp: linearised_def log_all_append log_filtered)
qed

lemma lin_acquire:
  assumes "linearised s0 es (ts, lg, w)" and "\<not> logMutex lg" and "i < length ts"
  shows "linearised s0 es (ts[i := (Build l m, cs)], lg\<lparr>logMutex := True\<rparr>, w)"
proof -
  from assms have a: "\<forall>j<length ts. \<not> holds_lock (fst (ts ! j))" "log_all es s0 = Some (lg, w)"
    by (auto simp: linearised_def)
  have "lg\<lparr>logMutex := False\<rparr> = lg" using assms(2) by simp
  with a assms(3) show ?thesis
    by (auto simp: linearised_def others_out_def nth_list_update intro!: exI[of _ i])
qed

lemma lin_holder:
  assumes "linearised s0 es (ts, lg, w)" and "i < length ts" and "holds_lock (fst (ts ! i))"
  shows "logMutex lg \<and> others_out i ts \<and> log_all es s0 = Some (finish (fst (ts ! i)) (lg, w))"
proof -
  have m: "logMutex lg" using assms by (auto simp: linearised_def split: if_splits)
  with assms(1) obtain h where h: "h < length ts" "holds_lock (fst (ts ! h))" "others_out h ts"
      "log_all es s0 = Some (finish (fst (ts ! h)) (lg, w))"
    by (auto simp: linearised_def)
  have "h = i" using h(3) assms(2,3) by (auto simp: others_out_def)
  with h m show ?thesis by simp
qed

lemma lin_holder_intro:
  assumes "logMutex lg'" and "i < length ts" and "others_out i ts" and "holds_lock pc'"
    and "log_all es' s0 = Some (finish pc' (lg', w'))"
  shows "linearised s0 es' (ts[i := (pc', cs')], lg', w')"
  using assms by (auto simp: linearised_def others_out_def nth_list_update intro!: exI[of _ i])

lemma lin_release:
  assumes "others_out i ts" and "i < length ts" and "\<not> logMutex lg'" and "log_all es s0 = Some (lg', w')"
  shows "linearised s0 es (ts[i := (Idle, cs')], lg', w')"
  using assms by (auto simp: linearised_def others_out_def nth_list_update)

lemma passed_update:
  assumes "\<forall>t\<in>set ts. passed lim (fst t)" and "passed lim pc'"
  shows "\<forall>t\<in>set (ts[i := (pc', cs')]). passed lim (fst t)"
proof
  fix t assume "t \<in> set (ts[i := (pc', cs')])"
  then have "t \<in> insert (pc', cs') (set ts)" using set_update_subset_insert by fast
  with assms show "passed lim (fst t)" by auto
qed

lemma commit_mset:
  assumes "mset es + A = C" and "B + mset (c # p) = A + mset p"
  shows "mset (es @ [c]) + B = C"
proof -
  from assms(2) have "add_mset c B = A" by simp
  with assms(1) show ?thesis by auto
qed

lemma keep_mset:
  assumes "mset es + A = C" and "B + mset p = A + mset p"
  shows "mset es + B = C"
  using assms by simp

lemma inv_thread_step:
  assumes I: "lin_inv s0 C (ts, lg, w)" and i: "i < length ts" and t: "ts ! i = (pc, cs)"
    and st: "thread_step (pc, cs) (lg, w) = Some ((pc', cs'), lg', w')"
  shows "lin_inv s0 C (ts[i := (pc', cs')], lg', w')"
proof -
  from I have P: "\<forall>t\<in>set ts. passed (minimumLevel lg) (fst t)" by (simp add: lin_inv_def)
  from I obtain es where M: "mset es + mset (concat (map pending ts)) = C"
    and L: "linearised s0 es (ts, lg, w)" by (auto simp: lin_inv_def)
  have pi: "passed (minimumLevel lg) pc" using P i t by (metis fst_conv nth_mem)
  note pu = pending_update[OF i, of "(pc', cs')", unfolded t]
  show ?thesis
  proof (cases "holds_lock pc")
    case True
    from lin_holder[OF L i] True t have H: "logMutex lg" "others_out i ts"
      "log_all es s0 = Some (finish pc (lg, w))" by simp_all
    note hs = holder_step[OF st True H(1) pi]
    then have ml: "minimumLevel lg' = minimumLevel lg" and pp: "passed (minimumLevel lg') pc'" by blast+
    have P': "\<forall>t\<in>set (ts[i := (pc', cs')]). passed (minimumLevel lg') (fst t)"
      using passed_update[OF P[folded ml] pp] .
    have "\<exists>es'. mset es' + mset (concat (map pending (ts[i := (pc', cs')]))) = C \<and>
             linearised s0 es' (ts[i := (pc', cs')], lg', w')"
    proof (cases pc)
      case (Build l m)
      with hs have b: "log l m (finish pc (lg, w)) = Some (finish pc' (lg', w'))" "holds_lock pc'" "logMutex lg'"
        "pending (pc, cs) = (l, m) # pending (pc', cs')" by simp_all
      have la: "log_all (es @ [(l, m)]) s0 = Some (finish pc' (lg', w'))"
        using H(3) b(1) by (simp add: log_all_append)
      have "linearised s0 (es @ [(l, m)]) (ts[i := (pc', cs')], lg', w')"
        by (rule lin_holder_intro[OF b(3) i H(2) b(2) la])
      moreover have "mset (es @ [(l, m)]) + mset (concat (map pending (ts[i := (pc', cs')]))) = C"
        using pu unfolding b(4) by (rule commit_mset[OF M])
      ultimately show ?thesis by blast
    next
      case Release
      with hs have b: "(lg', w') = finish pc (lg, w)" "pc' = Idle" "\<not> logMutex lg'"
        "pending (pc, cs) = pending (pc', cs')" by simp_all
      have "linearised s0 es (ts[i := (pc', cs')], lg', w')"
        unfolding b(2) by (rule lin_release[OF H(2) i b(3)]) (simp add: H(3) b(1))
      moreover have "mset es + mset (concat (map pending (ts[i := (pc', cs')]))) = C"
        using M pu b(4) by simp
      ultimately show ?thesis by blast
    next
      case Idle with True show ?thesis by simp
    next
      case (Acquire l m) with True show ?thesis by simp
    next
      case (ConsolePut e)
      with hs have b: "finish pc' (lg', w') = finish pc (lg, w)" "holds_lock pc'" "logMutex lg'"
        "pending (pc, cs) = pending (pc', cs')" by simp_all
      have "linearised s0 es (ts[i := (pc', cs')], lg', w')"
        by (rule lin_holder_intro[OF b(3) i H(2) b(2)]) (simp add: H(3) b(1))
      moreover have "mset es + mset (concat (map pending (ts[i := (pc', cs')]))) = C"
        using M pu b(4) by simp
      ultimately show ?thesis by blast
    next
      case (ConsoleEndl e)
      with hs have b: "finish pc' (lg', w') = finish pc (lg, w)" "holds_lock pc'" "logMutex lg'"
        "pending (pc, cs) = pending (pc', cs')" by simp_all
      have "linearised s0 es (ts[i := (pc', cs')], lg', w')"
        by (rule lin_holder_intro[OF b(3) i H(2) b(2)]) (simp add: H(3) b(1))
      moreover have "mset es + mset (concat (map pending (ts[i := (pc', cs')]))) = C"
        using M pu b(4) by simp
      ultimately show ?thesis by blast
    next
      case (TestOpen e)
      with hs have b: "finish pc' (lg', w') = finish pc (lg, w)" "holds_lock pc'" "logMutex lg'"
        "pending (pc, cs) = pending (pc', cs')" by simp_all
      have "linearised s0 es (ts[i := (pc', cs')], lg', w')"
        by (rule lin_holder_intro[OF b(3) i H(2) b(2)]) (simp add: H(3) b(1))
      moreover have "mset es + mset (concat (map pending (ts[i := (pc', cs')]))) = C"
        using M pu b(4) by simp
      ultimately show ?thesis by blast
    next
      case (FilePut e)
      with hs have b: "finish pc' (lg', w') = finish pc (lg, w)" "holds_lock pc'" "logMutex lg'"
        "pending (pc, cs) = pending (pc', cs')" by simp_all
      have "linearised s0 es (ts[i := (pc', cs')], lg', w')"
        by (rule lin_holder_intro[OF b(3) i H(2) b(2)]) (simp add: H(3) b(1))
      moreover have "mset es + mset (concat (map pending (ts[i := (pc', cs')]))) = C"
        using M pu b(4) by simp
      ultimately show ?thesis by blast
    next
      case (FileEndl e)
      with hs have b: "finish pc' (lg', w') = finish pc (lg, w)" "holds_lock pc'" "logMutex lg'"
        "pending (pc, cs) = pending (pc', cs')" by simp_all
      have "linearised s0 es (ts[i := (pc', cs')], lg', w')"
        by (rule lin_holder_intro[OF b(3) i H(2) b(2)]) (simp add: H(3) b(1))
      moreover have "mset es + mset (concat (map pending (ts[i := (pc', cs')]))) = C"
        using M pu b(4) by simp
      ultimately show ?thesis by blast
    qed
    with P' show ?thesis by (simp add: lin_inv_def)
  next
    case False
    note os = other_step[OF st False pi]
    then have w: "w' = w" and ml: "minimumLevel lg' = minimumLevel lg" and pp: "passed (minimumLevel lg') pc'"
      by blast+
    have P': "\<forall>t\<in>set (ts[i := (pc', cs')]). passed (minimumLevel lg') (fst t)"
      using passed_update[OF P[folded ml] pp] .
    have nh: "\<not> holds_lock (fst (ts ! i))" using False t by simp
    have "\<exists>es'. mset es' + mset (concat (map pending (ts[i := (pc', cs')]))) = C \<and>
             linearised s0 es' (ts[i := (pc', cs')], lg', w')"
    proof (cases pc)
      case Idle
      with os obtain c where c: "lg' = lg" "cs = c # cs'"
        "if level_less (fst c) (minimumLevel lg) then pc' = Idle else pc' = Acquire (fst c) (snd c)"
        by auto
      show ?thesis
      proof (cases "level_less (fst c) (minimumLevel lg)")
        case True
        with c have pc': "pc' = Idle" by simp
        have "linearised s0 es (ts[i := (pc', cs')], lg, w)"
          by (rule lin_other_same[OF L i nh]) (simp add: pc')
        then have "linearised s0 (es @ [c]) (ts[i := (pc', cs')], lg', w')"
          unfolding w c(1) by (rule lin_filtered) (rule True)
        moreover have "mset (es @ [c]) + mset (concat (map pending (ts[i := (pc', cs')]))) = C"
          using pu unfolding Idle c(2) pc' pending.simps by (rule commit_mset[OF M])
        ultimately show ?thesis by blast
      next
        case f: False
        with c have pc': "pc' = Acquire (fst c) (snd c)" by simp
        have "linearised s0 es (ts[i := (pc', cs')], lg, w)"
          by (rule lin_other_same[OF L i nh]) (simp add: pc')
        moreover have "mset es + mset (concat (map pending (ts[i := (pc', cs')]))) = C"
          using M pu Idle c(2) pc' by simp
        ultimately show ?thesis unfolding w c(1) by blast
      qed
    next
      case (Acquire l m)
      with os have a: "\<not> logMutex lg" "lg' = lg\<lparr>logMutex := True\<rparr>" "pc' = Build l m" "cs' = cs"
        by simp_all
      have "linearised s0 es (ts[i := (pc', cs')], lg', w')"
        unfolding w a(2,3) by (rule lin_acquire[OF L a(1) i])
      moreover have "mset es + mset (concat (map pending (ts[i := (pc', cs')]))) = C"
        using M pu Acquire a(3,4) by simp
      ultimately show ?thesis by blast
    qed (use False in simp_all)
    with P' show ?thesis by (simp add: lin_inv_def)
  qed
qed

lemma lin_inv_sched_step:
  assumes "lin_inv s0 C cfg"
  shows "lin_inv s0 C (sched_step i cfg)"
proof -
  obtain ts lg w where cfg: "cfg = (ts, lg, w)" by (metis prod_cases3)
  show ?thesis
  proof (cases "i < length ts")
    case False
    with assms cfg show ?thesis by (simp add: sched_step_def)
  next
    case True
    obtain pc cs where t: "ts ! i = (pc, cs)" by (metis surj_pair)
    show ?thesis
    proof (cases "thread_step (pc, cs) (lg, w)")
      case None
      with assms cfg True t show ?thesis by (simp add: sched_step_def)
    next
      case (Some r)
      obtain pc' cs' lg' w' where r: "r = ((pc', cs'), lg', w')" by (cases r) auto
      have "sched_step i cfg = (ts[i := (pc', cs')], lg', w')"
        using cfg True t Some r by (simp add: sched_step_def)
      moreover have "lin_inv s0 C (ts[i := (pc', cs')], lg', w')"
        using assms[unfolded cfg] True t Some[unfolded r] by (rule inv_thread_step)
      ultimately show ?thesis by simp
    qed
  qed
qed

lemma lin_inv_exec: "lin_inv s0 C cfg \<Longrightarrow> lin_inv s0 C (exec sch cfg)"
  by (induction sch arbitrary: cfg) (simp_all add: lin_inv_sched_step)

lemma pending_spawn: "concat (map pending (spawn progs)) = concat progs"
  by (induction progs) (simp_all add: spawn_def)

lemma lin_inv_init:
  assumes "\<not> logMutex lg"
  shows "lin_inv (lg, w) (mset (concat progs)) (spawn progs, lg, w)"
proof -
  have "linearised (lg, w) [] (spawn progs, lg, w)"
    using assms by (simp add: linearised_def spawn_def)
  moreover have "mset [] + mset (concat (map pending (spawn progs))) = mset (concat progs)"
    by (simp add: pending_spawn)
  moreover have "\<forall>t\<in>set (spawn progs). passed (minimumLevel lg) (fst t)"
    by (auto simp: spawn_def)
  ultimately show ?thesis unfolding lin_inv_def by blast
qed

lemma finished_pending: "finished ts \<Longrightarrow> concat (map pending ts) = []"
  by (induction ts) (simp_all add: finished_def)

lemma finished_nth: "finished ts \<Longrightarrow> j < length ts \<Longrightarrow> ts ! j = (Idle, [])"
  by (simp add: finished_def list_all_length)

lemma lin_inv_final:
  assumes "lin_inv s0 C (ts, lg, w)" and "finished ts"
  shows "\<not> logMutex lg \<and> (\<exists>es. mset es = C \<and> log_all es s0 = Some (lg, w))"
proof -
  from assms(1) obtain es where M: "mset es + mset (concat (map pending ts)) = C"
    and L: "linearised s0 es (ts, lg, w)" by (auto simp: lin_inv_def)
  have nl: "\<not> logMutex lg"
  proof
    assume "logMutex lg"
    with L obtain h where "h < length ts" "holds_lock (fst (ts ! h))" by (auto simp: linearised_def)
    with finished_nth[OF assms(2)] show False by simp
  qed
  with L have "log_all es s0 = Some (lg, w)" by (simp add: linearised_def)
  with M nl show ?thesis by (auto simp: finished_pending[OF assms(2)])
qed

lemma lin_inv_mutex:
  assumes "lin_inv s0 C (ts, lg, w)" and "i < length ts" and "holds_lock (fst (ts ! i))"
  shows "logMutex lg \<and> (\<forall>j<length ts. j \<noteq> i \<longrightarrow> \<not> holds_lock (fst (ts ! j)))"
proof -
  from assms(1) obtain es where L: "linearised s0 es (ts, lg, w)" by (auto simp: lin_inv_def)
  from lin_holder[OF L assms(2,3)] show ?thesis by (simp add: others_out_def)
qed

lemma at_step_holds: "at_step pc \<Longrightarrow> holds_lock pc"
  by (cases pc) simp_all

lemma emitted_all:
  "\<forall>c\<in>set es. \<not> level_less (fst c) m \<Longrightarrow> emitted clk k m es = terminated (rendered clk k es)"
  by (induction es arbitrary: k) (simp_all add: terminated_def level_less_def)

lemma length_rendered [simp]: "length (rendered clk k es) = length es"
  by (induction es arbitrary: k) simp_all

lemma length_concat_const: "\<forall>cs\<in>set progs. length cs = M \<Longrightarrow> length (concat progs) = length progs * M"
  by (induction progs) simp_all

lemma run1: "exec sched1 (spawn progs1, logger1, world0) =
   ([(Idle, []), (Idle, [])], logger1,
    world0\<lparr>cout := ''[2026-10-29 12:34:56][INFO]a'' @ [CHR 0x0A] @ ''[2026-10-29 12:34:56][ERROR]b'' @ [CHR 0x0A],
      files := [''app.log'' \<mapsto> ''[2026-10-29 12:34:56][INFO]a'' @ [CHR 0x0A] @ ''[2026-10-29 12:34:56][ERROR]b'' @ [CHR 0x0A]],
      clock_reads := 2\<rparr>)"
  by (simp add: sched1_def progs1_def spawn_def logger1_def world0_def sched_step_def level_less_def
      getCurrentTime_eq put_time_tm0 logEntry_def levelToString_def levelToString_switch_def
      cout_put_def cout_endl_def file_put_def file_endl_def file_bytes_def)

theorem append_mode_witness:
  "openable world_old ''app.log'' \<and>
   (\<exists>wA wB. session ''app.log'' INFO [(INFO, ''a'')] world_old = Some wA \<and>
      session ''app.log'' DEBUG [(DEBUG, ''b'')] wA = Some wB \<and>
      files wB ''app.log'' = Some (''old line'' @ [CHR 0x0A] @ ''[2026-10-29 12:34:56][INFO]a'' @ [CHR 0x0A]
                                    @ ''[2026-10-29 12:34:56][DEBUG]b'' @ [CHR 0x0A]))"
proof -
  have h: "openable world_old ''app.log''" by (simp add: world_old_def world0_def)
  from append_mode [OF h, of INFO "[(INFO, ''a'')]" DEBUG "[(DEBUG, ''b'')]"] h show ?thesis
    by (auto simp: world_old_def world0_def file_bytes_def put_time_tm0 logEntry_def
        levelToString_def levelToString_switch_def)
qed

theorem degraded_mode_witness:
  "\<not> openable world0 ''/no/such/dir/x.log'' \<and> openable world0 ''app.log'' \<and>
   (\<exists>lg wd w1 lg' w2. Logger_ctor ''/no/such/dir/x.log'' INFO world0 = (lg, wd) \<and>
      cerr wd = ''Failed to open the log file : /no/such/dir/x.log'' @ [CHR 0x0A] \<and>
      log_all [(DEBUG, ''d''), (ERROR, ''e'')] (lg, wd) = Some (lg, w1) \<and>
      log_all [(DEBUG, ''d''), (ERROR, ''e'')] (Logger_ctor ''app.log'' INFO world0) = Some (lg', w2) \<and>
      cout w1 = cout w2 \<and> cout w1 = ''[2026-10-29 12:34:56][ERROR]e'' @ [CHR 0x0A] \<and>
      cerr w1 = cerr wd \<and> files w1 = Map.empty)"
proof -
  have h1: "\<not> openable world0 ''/no/such/dir/x.log''" by (simp add: world0_def)
  have h2: "openable world0 ''app.log''" by (simp add: world0_def)
  from degraded_mode [OF h1 h2 refl refl refl, of INFO "[(DEBUG, ''d''), (ERROR, ''e'')]"] h1 h2
  show ?thesis
    by (auto simp: world0_def put_time_tm0 logEntry_def levelToString_def levelToString_switch_def)
qed

theorem operating_state_fixed_witness:
  "(\<exists>s'. log ERROR ''y'' (logger0, world0) = Some s' \<and> operating_state_of (fst s') = FileOpen \<and>
         minimumLevel (fst s') = WARNING) \<and>
   (\<exists>s'. log_all [(ERROR, ''y''), (DEBUG, ''x'')] (Logger_ctor ''/no/such/dir/x.log'' INFO world0) = Some s' \<and>
         operating_state_of (fst s') = FileUnavailable \<and> minimumLevel (fst s') = INFO) \<and>
   (\<exists>ts' s'. exec sched1 (spawn progs1, logger1, world0) = (ts', s') \<and>
         operating_state_of (fst s') = FileOpen \<and> minimumLevel (fst s') = INFO)"
proof -
  have a: "log ERROR ''y'' (logger0, world0) = Some (logger0, log_body ERROR ''y'' logger0 world0)"
    by (rule log_accepted) (simp_all add: logger0_def level_less_def)
  have c: "Logger_ctor ''/no/such/dir/x.log'' INFO world0 =
      (\<lparr>logfile = None, minimumLevel = INFO, logMutex = False\<rparr>,
       world0\<lparr>cerr := cerr world0 @ ''Failed to open the log file : '' @ ''/no/such/dir/x.log'' @ [CHR 0x0A]\<rparr>)"
    by (rule ctor_fail) (simp add: world0_def)
  have b: "log_all [(ERROR, ''y''), (DEBUG, ''x'')] (Logger_ctor ''/no/such/dir/x.log'' INFO world0) =
      Some (\<lparr>logfile = None, minimumLevel = INFO, logMutex = False\<rparr>,
        log_all_world [(ERROR, ''y''), (DEBUG, ''x'')] \<lparr>logfile = None, minimumLevel = INFO, logMutex = False\<rparr>
          (world0\<lparr>cerr := cerr world0 @ ''Failed to open the log file : '' @ ''/no/such/dir/x.log'' @ [CHR 0x0A]\<rparr>))"
    unfolding c by (rule log_all_eq) simp
  obtain ts' s' where e: "exec sched1 (spawn progs1, logger1, world0) = (ts', s')" by (metis surj_pair)
  from operating_state_fixed [of "''/no/such/dir/x.log''" INFO world0 ERROR "''y''" "(logger0, world0)"
      "[(ERROR, ''y''), (DEBUG, ''x'')]" sched1 "spawn progs1"] a
  have 1: "\<exists>s'. log ERROR ''y'' (logger0, world0) = Some s' \<and> operating_state_of (fst s') = FileOpen \<and>
         minimumLevel (fst s') = WARNING"
    by (simp add: logger0_def operating_state_of_def)
  from operating_state_fixed [of "''/no/such/dir/x.log''" INFO world0 ERROR "''y''"
      "Logger_ctor ''/no/such/dir/x.log'' INFO world0" "[(ERROR, ''y''), (DEBUG, ''x'')]" sched1 "spawn progs1"] b
  have 2: "\<exists>s'. log_all [(ERROR, ''y''), (DEBUG, ''x'')] (Logger_ctor ''/no/such/dir/x.log'' INFO world0) = Some s' \<and>
         operating_state_of (fst s') = FileUnavailable \<and> minimumLevel (fst s') = INFO"
    by (simp add: c operating_state_of_def)
  have 3: "\<exists>ts' s'. exec sched1 (spawn progs1, logger1, world0) = (ts', s') \<and>
         operating_state_of (fst s') = FileOpen \<and> minimumLevel (fst s') = INFO"
  proof -
    from operating_state_fixed [of "''app.log''" INFO world0 ERROR "''y''" "(logger1, world0)"
        "[]" sched1 "spawn progs1"]
    have "\<forall>ts' s'. exec sched1 (spawn progs1, logger1, world0) = (ts', s') \<longrightarrow>
        operating_state_of (fst s') = operating_state_of (fst (logger1, world0)) \<and>
        logfile (fst s') = logfile (fst (logger1, world0)) \<and>
        minimumLevel (fst s') = minimumLevel (fst (logger1, world0))" by blast
    with e have "operating_state_of (fst s') = operating_state_of logger1 \<and> minimumLevel (fst s') = minimumLevel logger1"
      by (cases s') auto
    then have "operating_state_of (fst s') = FileOpen \<and> minimumLevel (fst s') = INFO"
      by (simp add: logger1_def operating_state_of_def)
    with e show ?thesis by blast
  qed
  from 1 2 3 show ?thesis by blast
qed

lemma call_steps_pos: "0 < call_steps opened lim c"
  by (simp add: call_steps_def)

lemma steps_left_zero: "steps_left opened lim t = 0 \<Longrightarrow> t = (Idle, [])"
proof -
  assume z: "steps_left opened lim t = 0"
  obtain pc cs where t: "t = (pc, cs)" by (metis surj_pair)
  from z t have a: "pc_steps opened pc = 0" and b: "sum_list (map (call_steps opened lim) cs) = 0"
    by (simp_all add: steps_left_def)
  from a have "pc = Idle" by (cases pc) (simp_all split: if_splits)
  moreover have "cs = []"
  proof (cases cs)
    case (Cons c cs')
    with b have "call_steps opened lim c = 0" by simp
    with call_steps_pos[of opened lim c] show ?thesis by simp
  qed simp
  ultimately show ?thesis using t by simp
qed

lemma holding_steps_pos: "holds_lock pc \<Longrightarrow> 0 < steps_left opened lim (pc, cs)"
  by (cases pc) (simp_all add: steps_left_def)

lemma solo_step:
  assumes "logMutex lg = holds_lock pc" and "0 < steps_left (logfile lg \<noteq> None) (minimumLevel lg) (pc, cs)"
  shows "\<exists>pc' cs' lg' w'. thread_step (pc, cs) (lg, w) = Some ((pc', cs'), lg', w') \<and>
           Suc (steps_left (logfile lg \<noteq> None) (minimumLevel lg) (pc', cs'))
             = steps_left (logfile lg \<noteq> None) (minimumLevel lg) (pc, cs)"
proof (cases pc)
  case Idle
  with assms(2) obtain c cs' where "cs = c # cs'" by (cases cs) (auto simp: steps_left_def)
  with Idle show ?thesis by (simp add: steps_left_def call_steps_def)
next
  case (Acquire l m)
  with assms(1) show ?thesis by (simp add: steps_left_def)
next
  case (Build l m)
  then show ?thesis by (simp add: steps_left_def getCurrentTime_eq)
next
  case (ConsolePut e)
  then show ?thesis by (simp add: steps_left_def)
next
  case (ConsoleEndl e)
  then show ?thesis by (simp add: steps_left_def)
next
  case (TestOpen e)
  then show ?thesis by (cases "logfile lg") (simp_all add: steps_left_def)
next
  case (FilePut e)
  then show ?thesis by (cases "logfile lg") (simp_all add: steps_left_def)
next
  case (FileEndl e)
  then show ?thesis by (cases "logfile lg") (simp_all add: steps_left_def)
next
  case Release
  then show ?thesis by (simp add: steps_left_def)
qed

lemma sum_list_update_nat:
  fixes f :: "'a \<Rightarrow> nat"
  assumes "i < length ts"
  shows "sum_list (map f (ts[i := t])) + f (ts ! i) = sum_list (map f ts) + f t"
proof -
  have a: "ts = take i ts @ ts ! i # drop (Suc i) ts" using assms by (simp add: id_take_nth_drop)
  have b: "ts[i := t] = take i ts @ t # drop (Suc i) ts" using assms by (simp add: upd_conv_take_nth_drop)
  have "sum_list (map f (take i ts @ t # drop (Suc i) ts)) + f (ts ! i)
      = sum_list (map f (take i ts @ ts ! i # drop (Suc i) ts)) + f t" by simp
  with a b show ?thesis by simp
qed

lemma sum_pos_nth:
  fixes f :: "'a \<Rightarrow> nat"
  assumes "0 < sum_list (map f ts)"
  shows "\<exists>i<length ts. 0 < f (ts ! i)"
proof -
  from assms obtain x where "x \<in> set ts" "0 < f x" by (induction ts) auto
  then show ?thesis by (auto simp: in_set_conv_nth)
qed

lemma steps_total_zero: "steps_total opened lim ts = 0 \<Longrightarrow> finished ts"
proof -
  assume "steps_total opened lim ts = 0"
  then have "\<forall>t\<in>set ts. steps_left opened lim t = 0" by (simp add: steps_total_def)
  then have "\<forall>t\<in>set ts. t = (Idle, [])" using steps_left_zero by blast
  then show ?thesis by (simp add: finished_def list_all_iff)
qed

lemma one_step:
  assumes I: "lin_inv s0 C (ts, lg, w)"
    and k: "steps_total (logfile lg \<noteq> None) (minimumLevel lg) ts = Suc k"
  shows "\<exists>i ts' lg' w'. sched_step i (ts, lg, w) = (ts', lg', w') \<and>
           steps_total (logfile lg' \<noteq> None) (minimumLevel lg') ts' = k"
proof -
  let ?f = "steps_left (logfile lg \<noteq> None) (minimumLevel lg)"
  from I obtain es where L: "linearised s0 es (ts, lg, w)" by (auto simp: lin_inv_def)
  have "\<exists>i<length ts. logMutex lg = holds_lock (fst (ts ! i)) \<and> 0 < ?f (ts ! i)"
  proof (cases "logMutex lg")
    case True
    with L obtain h where h: "h < length ts" "holds_lock (fst (ts ! h))" by (auto simp: linearised_def)
    have "0 < ?f (fst (ts ! h), snd (ts ! h))" using h(2) by (rule holding_steps_pos)
    with True h show ?thesis by auto
  next
    case False
    with L have n: "\<forall>j<length ts. \<not> holds_lock (fst (ts ! j))" by (simp add: linearised_def)
    from k have "0 < sum_list (map ?f ts)" by (simp add: steps_total_def)
    from sum_pos_nth[OF this] obtain i where "i < length ts" "0 < ?f (ts ! i)" by blast
    with n False show ?thesis by auto
  qed
  then obtain i where i: "i < length ts" "logMutex lg = holds_lock (fst (ts ! i))"
    "0 < ?f (ts ! i)" by blast
  obtain pc cs where t: "ts ! i = (pc, cs)" by (metis surj_pair)
  have m: "logMutex lg = holds_lock pc" using i(2) t by simp
  have p: "0 < ?f (pc, cs)" using i(3) t by simp
  from solo_step[OF m p, of w] obtain pc' cs' lg' w' where
    st: "thread_step (pc, cs) (lg, w) = Some ((pc', cs'), lg', w')"
    and dec: "Suc (?f (pc', cs')) = ?f (pc, cs)" by blast
  from thread_step_keeps[OF st] have cg: "logfile lg' = logfile lg" "minimumLevel lg' = minimumLevel lg"
    by simp_all
  have ss: "sched_step i (ts, lg, w) = (ts[i := (pc', cs')], lg', w')"
    using i(1) t st by (simp add: sched_step_def)
  from sum_list_update_nat[OF i(1), of ?f "(pc', cs')"] t dec k
  have "sum_list (map ?f (ts[i := (pc', cs')])) = k" by (simp add: steps_total_def)
  then have "steps_total (logfile lg' \<noteq> None) (minimumLevel lg') (ts[i := (pc', cs')]) = k"
    by (simp add: steps_total_def cg)
  with ss show ?thesis by blast
qed

lemma progress:
  "lin_inv s0 C (ts, lg, w) \<Longrightarrow> steps_total (logfile lg \<noteq> None) (minimumLevel lg) ts = k \<Longrightarrow>
     \<exists>sch. length sch = k \<and> finished (fst (exec sch (ts, lg, w)))"
proof (induction k arbitrary: ts lg w)
  case 0
  then have "finished ts" by (simp add: steps_total_zero)
  then have "length ([]::nat list) = 0 \<and> finished (fst (exec [] (ts, lg, w)))" by simp
  then show ?case by blast
next
  case (Suc k)
  from one_step[OF Suc.prems] obtain i ts' lg' w' where
    s: "sched_step i (ts, lg, w) = (ts', lg', w')"
      "steps_total (logfile lg' \<noteq> None) (minimumLevel lg') ts' = k" by blast
  have "lin_inv s0 C (ts', lg', w')" using lin_inv_sched_step[OF Suc.prems(1), of i] s(1) by simp
  from Suc.IH[OF this s(2)] obtain sch where "length sch = k" "finished (fst (exec sch (ts', lg', w')))"
    by blast
  then have "length (i # sch) = Suc k \<and> finished (fst (exec (i # sch) (ts, lg, w)))" using s(1) by simp
  then show ?case by blast
qed

lemma exec_append: "exec (a @ b) cfg = exec b (exec a cfg)"
  by (induction a arbitrary: cfg) simp_all

lemma can_finish:
  assumes "\<not> logMutex lg"
  shows "\<exists>sch'. finished (fst (exec (sch @ sch') (spawn progs, lg, w)))"
proof -
  obtain ts' lg' w' where e: "exec sch (spawn progs, lg, w) = (ts', lg', w')" by (metis prod_cases3)
  have "lin_inv (lg, w) (mset (concat progs)) (ts', lg', w')"
    using lin_inv_exec[OF lin_inv_init[OF assms], of w progs sch] e by simp
  from progress[OF this refl] obtain sch' where "finished (fst (exec sch' (ts', lg', w')))" by blast
  then have "finished (fst (exec (sch @ sch') (spawn progs, lg, w)))" by (simp add: exec_append e)
  then show ?thesis by blast
qed



































lemma digit_not_nl: "digit n \<noteq> CHR 0x0A" "CHR 0x0A \<noteq> digit n"
proof -
  have "digit n \<in> set ''0123456789''" unfolding digit_def by (rule nth_mem) simp
  then show "digit n \<noteq> CHR 0x0A" "CHR 0x0A \<noteq> digit n" by auto
qed

lemma dec_no_nl: "CHR 0x0A \<notin> set (dec n)"
proof (induction n rule: dec.induct)
  case (1 n)
  show ?case
  proof (cases "n < 10")
    case True
    then show ?thesis by (subst dec.simps) (simp add: digit_not_nl)
  next
    case False
    with 1 show ?thesis by (subst dec.simps) (simp add: digit_not_nl)
  qed
qed

lemma put_time_no_nl: "CHR 0x0A \<notin> set (put_time t)"
  by (simp add: put_time_def show_int_def pad2_def dec_no_nl digit_not_nl)

lemma logEntry_no_nl: "CHR 0x0A \<notin> set m \<Longrightarrow> CHR 0x0A \<notin> set (logEntry (put_time t) l m)"
  by (cases l) (simp_all add: logEntry_def levelToString_def levelToString_switch_def put_time_no_nl)

lemma count_terminated:
  "\<forall>c\<in>set es. CHR 0x0A \<notin> set (snd c) \<Longrightarrow>
     length (filter (\<lambda>ch. ch = CHR 0x0A) (terminated (rendered clk k es))) = length es"
proof (induction es arbitrary: k)
  case Nil
  then show ?case by (simp add: terminated_def)
next
  case (Cons c es)
  from Cons.prems have "CHR 0x0A \<notin> set (logEntry (put_time (clk k)) (fst c) (snd c))"
    by (simp add: logEntry_no_nl)
  then have "filter (\<lambda>ch. ch = CHR 0x0A) (logEntry (put_time (clk k)) (fst c) (snd c)) = []"
    by (auto simp: filter_empty_conv)
  moreover have "length (filter (\<lambda>ch. ch = CHR 0x0A) (terminated (rendered clk (Suc k) es))) = length es"
    using Cons.prems by (intro Cons.IH) simp
  ultimately show ?case by (simp add: terminated_def)
qed

text \<open>
  Claim C1. Threads that share one logger, each with \<open>M\<close> calls at or above the
  threshold, under any schedule \<open>sch\<close> of their statements. Whenever a thread is at
  one of the five steps of an accepted call (timestamp and line, the two insertions
  on the console, the test and the two insertions on the file), the mutex is locked
  and no other thread is inside the locked scope. When all threads have returned, the
  shared state is the one that the same calls, made one after the other in some order
  \<open>es\<close>, produce: the console and the open file have each received exactly
  (number of threads) times \<open>M\<close> whole lines, each followed by a newline, and
  nothing else; when no message contains a newline, that is also the number of
  newlines received. And no schedule gets stuck: it can always be continued until all
  threads have returned.
\<close>

theorem concurrent_lines:
  assumes "\<not> logMutex lg"
    and "\<forall>cs\<in>set progs. length cs = M \<and> (\<forall>c\<in>set cs. \<not> level_less (fst c) (minimumLevel lg))"
    and "exec sch (spawn progs, lg, w) = (ts', lg', w')"
  shows "(\<forall>i<length ts'. at_step (fst (ts' ! i)) \<longrightarrow>
            logMutex lg' \<and> (\<forall>j<length ts'. j \<noteq> i \<longrightarrow> \<not> holds_lock (fst (ts' ! j)))) \<and>
         (finished ts' \<longrightarrow>
            (\<exists>es. mset es = mset (concat progs) \<and> length es = length progs * M \<and>
               log_all es (lg, w) = Some (lg', w') \<and>
               cout w' = cout w @ terminated (rendered (clock w) (clock_reads w) es) \<and>
               (\<forall>p. logfile lg = Some p \<longrightarrow>
                  file_bytes w' p = file_bytes w p @ terminated (rendered (clock w) (clock_reads w) es)) \<and>
               (logfile lg = None \<longrightarrow> files w' = files w) \<and>
               ((\<forall>c\<in>set (concat progs). CHR 0x0A \<notin> set (snd c)) \<longrightarrow>
                  length (filter (\<lambda>ch. ch = CHR 0x0A) (terminated (rendered (clock w) (clock_reads w) es)))
                    = length progs * M))) \<and>
         (\<exists>sch'. finished (fst (exec (sch @ sch') (spawn progs, lg, w))))"
proof -
  have I: "lin_inv (lg, w) (mset (concat progs)) (ts', lg', w')"
    using lin_inv_exec[OF lin_inv_init[OF assms(1)], of w progs sch] assms(3) by simp
  have mutex: "\<forall>i<length ts'. at_step (fst (ts' ! i)) \<longrightarrow>
            logMutex lg' \<and> (\<forall>j<length ts'. j \<noteq> i \<longrightarrow> \<not> holds_lock (fst (ts' ! j)))"
  proof (intro allI impI)
    fix i assume i: "i < length ts'" "at_step (fst (ts' ! i))"
    from i(2) have "holds_lock (fst (ts' ! i))" by (rule at_step_holds)
    from lin_inv_mutex[OF I i(1) this]
    show "logMutex lg' \<and> (\<forall>j<length ts'. j \<noteq> i \<longrightarrow> \<not> holds_lock (fst (ts' ! j)))" .
  qed
  have fin: "\<exists>es. mset es = mset (concat progs) \<and> length es = length progs * M \<and>
               log_all es (lg, w) = Some (lg', w') \<and>
               cout w' = cout w @ terminated (rendered (clock w) (clock_reads w) es) \<and>
               (\<forall>p. logfile lg = Some p \<longrightarrow>
                  file_bytes w' p = file_bytes w p @ terminated (rendered (clock w) (clock_reads w) es)) \<and>
               (logfile lg = None \<longrightarrow> files w' = files w) \<and>
               ((\<forall>c\<in>set (concat progs). CHR 0x0A \<notin> set (snd c)) \<longrightarrow>
                  length (filter (\<lambda>ch. ch = CHR 0x0A) (terminated (rendered (clock w) (clock_reads w) es)))
                    = length progs * M)" if f: "finished ts'"
  proof -
    from lin_inv_final[OF I f] obtain es where es: "mset es = mset (concat progs)"
      "log_all es (lg, w) = Some (lg', w')" by blast
    from es(1) have se: "set es = set (concat progs)" by (rule mset_eq_setD)
    from es(1) have "length es = length (concat progs)" by (rule mset_eq_length)
    with assms(2) have len: "length es = length progs * M" by (simp add: length_concat_const)
    have acc: "\<forall>c\<in>set es. \<not> level_less (fst c) (minimumLevel lg)"
      using assms(2) se by auto
    from es(2) log_all_eq[OF assms(1), of es w] have eq: "lg' = lg" "w' = log_all_world es lg w" by auto
    have co: "cout w' = cout w @ terminated (rendered (clock w) (clock_reads w) es)"
      by (simp add: eq law_cout emitted_all[OF acc])
    have fo: "\<forall>p. logfile lg = Some p \<longrightarrow>
                  file_bytes w' p = file_bytes w p @ terminated (rendered (clock w) (clock_reads w) es)"
      by (simp add: eq law_bytes emitted_all[OF acc])
    have fc: "logfile lg = None \<longrightarrow> files w' = files w"
      by (simp add: eq law_files_closed)
    have nl: "(\<forall>c\<in>set (concat progs). CHR 0x0A \<notin> set (snd c)) \<longrightarrow>
                  length (filter (\<lambda>ch. ch = CHR 0x0A) (terminated (rendered (clock w) (clock_reads w) es)))
                    = length progs * M"
      using count_terminated[of es "clock w" "clock_reads w"] se len by simp
    show ?thesis
      by (rule exI[of _ es]) (intro conjI es len co fo fc nl)
  qed
  show ?thesis
    by (intro conjI mutex impI fin can_finish[OF assms(1)])
qed

theorem concurrent_lines_witness:
  "\<not> logMutex logger1 \<and> list_all (\<lambda>cs. length cs = 1) progs1 \<and>
   list_all (\<lambda>c. \<not> level_less (fst c) (minimumLevel logger1)) (concat progs1) \<and>
   finished (fst (exec sched1 (spawn progs1, logger1, world0))) \<and>
   (\<exists>es. mset es = mset (concat progs1) \<and> length es = 2 \<and>
      cout (snd (snd (exec sched1 (spawn progs1, logger1, world0)))) =
        terminated (rendered (\<lambda>k. tm0) 0 es) \<and>
      file_bytes (snd (snd (exec sched1 (spawn progs1, logger1, world0)))) ''app.log'' =
        terminated (rendered (\<lambda>k. tm0) 0 es) \<and>
      length (filter (\<lambda>ch. ch = CHR 0x0A) (terminated (rendered (\<lambda>k. tm0) 0 es))) = 2)"
proof -
  have h1: "\<not> logMutex logger1" by (simp add: logger1_def)
  have h2: "\<forall>cs\<in>set progs1. length cs = 1 \<and> (\<forall>c\<in>set cs. \<not> level_less (fst c) (minimumLevel logger1))"
    by (simp add: progs1_def logger1_def level_less_def)
  have h3: "exec sched1 (spawn progs1, logger1, world0) =
      (fst (exec sched1 (spawn progs1, logger1, world0)),
       fst (snd (exec sched1 (spawn progs1, logger1, world0))),
       snd (snd (exec sched1 (spawn progs1, logger1, world0))))" by simp
  have f: "finished (fst (exec sched1 (spawn progs1, logger1, world0)))"
    by (simp add: run1 finished_def)
  from concurrent_lines [OF h1 h2 h3] f h1 h2 show ?thesis
    by (auto simp: logger1_def world0_def progs1_def file_bytes_def level_less_def)
qed







end
